theory Spec2Isabelle
  imports Main "HOL-Library.Word"
begin

section \<open>Faults, sizes and the generic carrier types of \<open>commons.h\<close>\<close>

text \<open>
  The library is C: an access outside an allocation, a call through a null function pointer
  and a remainder by zero are undefined behaviour. The model makes each of them a value, so
  that every such path of the source is a branch of the model.
\<close>

datatype fault = OutOfBounds | NullCall | DivByZero

text \<open>
  \<open>size_t\<close> values (lengths, capacities, indices, hash values) are natural numbers. The
  only place where the source lets one wrap around is a subtraction (\<open>index - 1\<close>,
  \<open>len -= 1\<close>, \<open>active_count -= 1\<close>), written out here for a 64-bit \<open>size_t\<close>.
\<close>

definition size_sub :: "nat \<Rightarrow> nat \<Rightarrow> nat" where
  "size_sub a b = (a + 2 ^ 64 - b) mod 2 ^ 64"

text \<open>
  \<open>option_T\<close> (\<open>{bool ok; T value}\<close>) is HOL's \<open>option\<close>: \<open>None\<close> is \<open>ok = false\<close>, whose
  \<open>value\<close> must not be used, and \<open>Some v\<close> is \<open>ok = true\<close> with \<open>value = v\<close>.
\<close>

section \<open>The dynamic array (\<open>gen_dyn\<close>)\<close>

text \<open>
  \<open>dyn_T\<close> is \<open>{T* buf; size_t len; size_t cap}\<close>. The record is polymorphic in what \<open>buf\<close>
  stands for: the contents of the allocation as a list of elements (for the functions that
  index it element by element), or an address into an explicit store of bytes (for
  \<open>dyn_clone\<close>, whose \<open>memcpy\<close> counts bytes and whose result must not alias its argument).
\<close>

record 'b dyn =
  buf :: 'b
  len :: nat
  cap :: nat

text \<open>\<open>calloc(sizeof(T), cap)\<close>: an allocation of \<open>cap\<close> elements, every byte zero.\<close>

definition dyn_init_with_cap :: "nat \<Rightarrow> 'a::zero list dyn" where
  "dyn_init_with_cap c = \<lparr>buf = replicate c 0, len = 0, cap = c\<rparr>"

text \<open>\<open>free(self->buf); len = 0; cap = 0\<close>: nothing of the allocation can be read afterwards.\<close>

definition dyn_deinit :: "'a list dyn \<Rightarrow> 'a list dyn" where
  "dyn_deinit self = \<lparr>buf = [], len = 0, cap = 0\<rparr>"

definition dyn_at :: "'a list dyn \<Rightarrow> nat \<Rightarrow> fault + 'a option" where
  "dyn_at self index =
    (if len self \<le> index then Inr None
     else if length (buf self) \<le> index then Inl OutOfBounds
     else Inr (Some (buf self ! index)))"

text \<open>
  The loop of \<open>dyn_remove\<close>:
  \<^verbatim>\<open>for (; index + 1 < self->len; index++) { self->buf[index - 1] = self->buf[index]; }\<close>
\<close>

function dyn_remove_loop :: "'a list dyn \<Rightarrow> nat \<Rightarrow> fault + 'a list dyn" where
  "dyn_remove_loop self index =
    (if index + 1 < len self then
       (if length (buf self) \<le> index then Inl OutOfBounds
        else if length (buf self) \<le> size_sub index 1 then Inl OutOfBounds
        else dyn_remove_loop
               (self\<lparr>buf := (buf self)[size_sub index 1 := buf self ! index]\<rparr>) (index + 1))
     else Inr self)"
  by pat_completeness auto
termination
  by (relation "measure (\<lambda>(self, index). len self - index)") auto

declare dyn_remove_loop.simps [simp del]

definition dyn_remove :: "'a list dyn \<Rightarrow> nat \<Rightarrow> fault + 'a option \<times> 'a list dyn" where
  "dyn_remove self index =
    (case dyn_at self index of
       Inl e \<Rightarrow> Inl e
     | Inr None \<Rightarrow> Inr (None, self)
     | Inr (Some elem) \<Rightarrow>
        (case dyn_remove_loop self index of
           Inl e \<Rightarrow> Inl e
         | Inr self' \<Rightarrow> Inr (Some elem, self'\<lparr>len := size_sub (len self') 1\<rparr>)))"

subsection \<open>\<open>dyn_clone\<close> on a store of bytes\<close>

text \<open>
  The store is the list of the allocations made so far, each a list of bytes; an address
  is an index into it. \<open>malloc\<close> appends a new allocation, so its address is fresh; the
  contents of what it returns are indeterminate in C, and are the parameter \<open>junk\<close> here
  (the byte found at each offset). \<open>memcpy(dst, src, n)\<close> copies \<open>n\<close> bytes.
\<close>

type_synonym byte = "8 word"
type_synonym ptr = nat
type_synonym heap = "byte list list"

definition malloc :: "(nat \<Rightarrow> byte) \<Rightarrow> heap \<Rightarrow> nat \<Rightarrow> ptr \<times> heap" where
  "malloc junk h n = (length h, h @ [map junk [0..<n]])"

definition memcpy :: "heap \<Rightarrow> ptr \<Rightarrow> ptr \<Rightarrow> nat \<Rightarrow> fault + heap" where
  "memcpy h dst src n =
    (if dst < length h \<and> src < length h \<and> n \<le> length (h ! dst) \<and> n \<le> length (h ! src)
     then Inr (h[dst := take n (h ! src) @ drop n (h ! dst)])
     else Inl OutOfBounds)"

text \<open>
  \<^verbatim>\<open>T* buf = (T*)malloc(sizeof(T) * self->cap); memcpy(buf, self->buf, self->len);\<close>
  with \<open>sizeof(T)\<close> the parameter \<open>sizeof_T\<close>.
\<close>

definition dyn_clone :: "nat \<Rightarrow> (nat \<Rightarrow> byte) \<Rightarrow> heap \<Rightarrow> ptr dyn \<Rightarrow> fault + ptr dyn \<times> heap" where
  "dyn_clone sizeof_T junk h self =
    (case malloc junk h (sizeof_T * cap self) of
       (new_buf, h1) \<Rightarrow>
         (case memcpy h1 new_buf (buf self) (len self) of
            Inl e \<Rightarrow> Inl e
          | Inr h2 \<Rightarrow> Inr (\<lparr>buf = new_buf, len = len self, cap = cap self\<rparr>, h2)))"

text \<open>The bytes of element \<open>index\<close> of an array of \<open>T\<close> in the store: \<open>self->buf[index]\<close>.\<close>

definition dyn_elem :: "nat \<Rightarrow> heap \<Rightarrow> ptr dyn \<Rightarrow> nat \<Rightarrow> byte list" where
  "dyn_elem sizeof_T h self index = take sizeof_T (drop (index * sizeof_T) (h ! buf self))"

section \<open>The hash table (\<open>gen_map\<close>)\<close>

record ('k, 'v) map_entry =
  key :: 'k
  val :: 'v
  active :: bool

text \<open>An entry of zero bytes, as \<open>calloc\<close> leaves it: zero key, zero value, not active.\<close>

instantiation map_entry_ext :: (zero, zero, zero) zero
begin

definition zero_map_entry_ext :: "('a, 'b, 'c) map_entry_ext" where
  "zero_map_entry_ext = map_entry_ext 0 0 False 0"

instance ..

end

instantiation unit :: zero
begin

definition zero_unit :: unit where
  "zero_unit = ()"

instance ..

end

text \<open>
  \<open>map_K_V\<close>: the two function pointers are optional, \<open>None\<close> being the null pointer;
  a call through it is the fault \<open>NullCall\<close>.
\<close>

record ('k, 'v) map_kv =
  entries :: "('k, 'v) map_entry list dyn"
  active_count :: nat
  hash :: "('k \<Rightarrow> nat) option"
  key_compare :: "('k \<Rightarrow> 'k \<Rightarrow> bool) option"

definition map_init :: "('k \<Rightarrow> nat) \<Rightarrow> ('k \<Rightarrow> 'k \<Rightarrow> bool) \<Rightarrow> ('k::zero, 'v::zero) map_kv" where
  "map_init hash_fn key_compare_fn =
    \<lparr>entries = dyn_init_with_cap 97, active_count = 0,
     hash = Some hash_fn, key_compare = Some key_compare_fn\<rparr>"

definition map_deinit :: "('k, 'v) map_kv \<Rightarrow> ('k, 'v) map_kv" where
  "map_deinit self = self\<lparr>entries := dyn_deinit (entries self)\<rparr>"

text \<open>A store to one slot of the backing array: \<open>self->entries.buf[index] = e\<close>.\<close>

definition set_slot :: "('k, 'v) map_kv \<Rightarrow> nat \<Rightarrow> ('k, 'v) map_entry \<Rightarrow> ('k, 'v) map_kv" where
  "set_slot self index e =
    self\<lparr>entries := (entries self)\<lparr>buf := (buf (entries self))[index := e]\<rparr>\<rparr>"

text \<open>
  The probing loop, which \<open>map_insert\<close>, \<open>map_update\<close> and \<open>map_remove\<close> each spell out
  in the same words:
  \<^verbatim>\<open>while (self->entries.buf[index].active) {
    if (self->key_compare(self->entries.buf[index].key, key)) { <found> }
    index = (index + 1) % self->entries.cap; }\<close>
  It returns whether it left at a matching entry (\<open>return false\<close> in \<open>map_insert\<close>,
  \<open>found = true; break\<close> in the other two) and the index it left at. The loop has no bound
  of its own: where it never leaves, the value is \<open>None\<close>.
\<close>

partial_function (option) map_probe ::
  "('k, 'v) map_kv \<Rightarrow> 'k \<Rightarrow> nat \<Rightarrow> (fault + bool \<times> nat) option" where
  "map_probe self k index =
    (if length (buf (entries self)) \<le> index then Some (Inl OutOfBounds)
     else if active (buf (entries self) ! index) then
       (case key_compare self of
          None \<Rightarrow> Some (Inl NullCall)
        | Some cmp \<Rightarrow>
            if cmp (key (buf (entries self) ! index)) k then Some (Inr (True, index))
            else if cap (entries self) = 0 then Some (Inl DivByZero)
            else map_probe self k ((index + 1) mod cap (entries self)))
     else Some (Inr (False, index)))"

text \<open>
  The loop of \<open>map_resize\<close> over the old backing array, with the insertion it calls as the
  parameter \<open>ins\<close> (\<open>map_insert\<close> itself, declared before \<open>map_resize\<close> in the source):
  \<^verbatim>\<open>for (size_t i = 0; i < self->entries.cap; i++) {
    if (self->entries.buf[i].active) {
      map_insert(&new_map, self->entries.buf[i].key, self->entries.buf[i].value); } }\<close>
\<close>

function map_resize_loop ::
  "(('k, 'v) map_kv \<Rightarrow> 'k \<Rightarrow> 'v \<Rightarrow> (fault + bool \<times> ('k, 'v) map_kv) option) \<Rightarrow>
   ('k, 'v) map_kv \<Rightarrow> ('k, 'v) map_kv \<Rightarrow> nat \<Rightarrow> (fault + ('k, 'v) map_kv) option" where
  "map_resize_loop ins self new_map i =
    (if i < cap (entries self) then
       (if length (buf (entries self)) \<le> i then Some (Inl OutOfBounds)
        else if active (buf (entries self) ! i) then
          Option.bind
            (ins new_map (key (buf (entries self) ! i)) (val (buf (entries self) ! i)))
            (\<lambda>r. case r of
               Inl e \<Rightarrow> Some (Inl e)
             | Inr (_, new_map') \<Rightarrow> map_resize_loop ins self new_map' (i + 1))
        else map_resize_loop ins self new_map (i + 1))
     else Some (Inr new_map))"
  by pat_completeness auto
termination
  by (relation "measure (\<lambda>(ins, self, new_map, i). cap (entries self) - i)") auto

declare map_resize_loop.simps [simp del]

lemma map_resize_loop_mono [partial_function_mono]:
  assumes "\<And>m k v. mono_option (\<lambda>f. F f m k v)"
  shows "mono_option (\<lambda>f. map_resize_loop (F f) self new_map i)"
proof (induction "cap (entries self) - i" arbitrary: i new_map)
  case 0
  then show ?case
    by (subst map_resize_loop.simps) (simp add: option.const_mono)
next
  case (Suc n)
  have step: "\<And>nm. mono_option (\<lambda>f. map_resize_loop (F f) self nm (i + 1))"
    using Suc by simp
  show ?case
    apply (subst map_resize_loop.simps)
    apply (intro partial_function_mono assms step)
    subgoal for y
      using step by (cases y) (auto simp: option.const_mono split: prod.split)
    done
qed

text \<open>
  \<open>map_resize\<close> with the insertion as a parameter. The new map is the compound literal
  \<^verbatim>\<open>{ .entries = dyn_init_with_cap(self->entries.cap * 2 + 1), .active_count = 0, }\<close>
  whose members \<open>hash\<close> and \<open>key_compare\<close> are not named and are therefore null. After
  the loop \<open>map_deinit(self)\<close> frees the old array and \<open>*self = new_map\<close> replaces every
  member of the table: the table left behind is the new map.
\<close>

definition map_resize_with ::
  "(('k::zero, 'v::zero) map_kv \<Rightarrow> 'k \<Rightarrow> 'v \<Rightarrow> (fault + bool \<times> ('k, 'v) map_kv) option) \<Rightarrow>
   ('k, 'v) map_kv \<Rightarrow> (fault + ('k, 'v) map_kv) option" where
  "map_resize_with ins self =
    map_resize_loop ins self
      \<lparr>entries = dyn_init_with_cap (cap (entries self) * 2 + 1), active_count = 0,
       hash = None, key_compare = None\<rparr> 0"

lemma map_resize_with_mono [partial_function_mono]:
  assumes "\<And>m k v. mono_option (\<lambda>f. F f m k v)"
  shows "mono_option (\<lambda>f. map_resize_with (F f) self)"
  unfolding map_resize_with_def by (rule map_resize_loop_mono) (rule assms)

text \<open>
  \<open>map_insert\<close>: the growth when \<open>active_count >= cap\<close> holds on entry (\<open>self1\<close> is the
  table after it), then
  \<^verbatim>\<open>size_t index = self->hash(key) % self->entries.cap;\<close>
  the probing loop, which returns \<open>false\<close> at a matching entry, and the three stores to the
  slot the loop left at (\<open>active = true\<close>, \<open>key\<close>, \<open>value\<close>) with \<open>active_count += 1\<close>.
\<close>

partial_function (option) map_insert ::
  "('k::zero, 'v::zero) map_kv \<Rightarrow> 'k \<Rightarrow> 'v \<Rightarrow> (fault + bool \<times> ('k, 'v) map_kv) option" where
  "map_insert self k v =
    Option.bind
      (if cap (entries self) \<le> active_count self then map_resize_with map_insert self
       else Some (Inr self))
      (\<lambda>r. case r of
         Inl e \<Rightarrow> Some (Inl e)
       | Inr self1 \<Rightarrow>
          (case hash self1 of
             None \<Rightarrow> Some (Inl NullCall)
           | Some h \<Rightarrow>
              if cap (entries self1) = 0 then Some (Inl DivByZero)
              else Option.bind (map_probe self1 k (h k mod cap (entries self1)))
                (\<lambda>p. case p of
                   Inl e \<Rightarrow> Some (Inl e)
                 | Inr (found, index) \<Rightarrow>
                     if found then Some (Inr (False, self1))
                     else Some (Inr (True,
                       (set_slot self1 index \<lparr>key = k, val = v, active = True\<rparr>)
                         \<lparr>active_count := active_count self1 + 1\<rparr>)))))"

definition map_resize :: "('k::zero, 'v::zero) map_kv \<Rightarrow> (fault + ('k, 'v) map_kv) option" where
  "map_resize self = map_resize_with map_insert self"

text \<open>
  The loop of \<open>map_get\<close> is bounded by the capacity:
  \<^verbatim>\<open>for (size_t i = 0; i < self->entries.cap; i++) {
    if (!self->entries.buf[index].active) { break; }
    if (self->key_compare(self->entries.buf[index].key, key)) { break; }
    index = (index + 1) % self->entries.cap; }\<close>
  It returns the index it left at and \<open>i\<close>, the number of probe steps it completed.
\<close>

function map_get_loop :: "('k, 'v) map_kv \<Rightarrow> 'k \<Rightarrow> nat \<Rightarrow> nat \<Rightarrow> fault + nat \<times> nat" where
  "map_get_loop self k index i =
    (if i < cap (entries self) then
       (if length (buf (entries self)) \<le> index then Inl OutOfBounds
        else if \<not> active (buf (entries self) ! index) then Inr (index, i)
        else
          (case key_compare self of
             None \<Rightarrow> Inl NullCall
           | Some cmp \<Rightarrow>
               if cmp (key (buf (entries self) ! index)) k then Inr (index, i)
               else map_get_loop self k ((index + 1) mod cap (entries self)) (i + 1)))
     else Inr (index, i))"
  by pat_completeness auto
termination
  by (relation "measure (\<lambda>(self, k, index, i). cap (entries self) - i)") auto

declare map_get_loop.simps [simp del]

text \<open>
  \<open>map_get\<close> returns the option and, as every function of the table that takes
  \<open>map *self\<close> does in this model, the table it leaves behind.
\<close>

definition map_get ::
  "('k, 'v) map_kv \<Rightarrow> 'k \<Rightarrow> fault + ('k, 'v) map_entry option \<times> ('k, 'v) map_kv" where
  "map_get self k =
    (case hash self of
       None \<Rightarrow> Inl NullCall
     | Some h \<Rightarrow>
        if cap (entries self) = 0 then Inl DivByZero
        else
          (case map_get_loop self k (h k mod cap (entries self)) 0 of
             Inl e \<Rightarrow> Inl e
           | Inr (index, steps) \<Rightarrow>
               if length (buf (entries self)) \<le> index then Inl OutOfBounds
               else if active (buf (entries self) ! index) then
                 (case key_compare self of
                    None \<Rightarrow> Inl NullCall
                  | Some cmp \<Rightarrow>
                      if cmp (key (buf (entries self) ! index)) k
                      then Inr (Some (buf (entries self) ! index), self)
                      else Inr (None, self))
               else Inr (None, self)))"

text \<open>
  \<open>map_update\<close> and \<open>map_remove\<close>: the same first line and probing loop; \<open>return false\<close>
  when the loop left at an inactive slot, otherwise one store to the slot found
  (\<open>value\<close>, or \<open>active = false\<close> with \<open>active_count -= 1\<close>).
\<close>

definition map_update ::
  "('k, 'v) map_kv \<Rightarrow> 'k \<Rightarrow> 'v \<Rightarrow> (fault + bool \<times> ('k, 'v) map_kv) option" where
  "map_update self k v =
    (case hash self of
       None \<Rightarrow> Some (Inl NullCall)
     | Some h \<Rightarrow>
        if cap (entries self) = 0 then Some (Inl DivByZero)
        else Option.bind (map_probe self k (h k mod cap (entries self)))
          (\<lambda>p. case p of
             Inl e \<Rightarrow> Some (Inl e)
           | Inr (found, index) \<Rightarrow>
               if \<not> found then Some (Inr (False, self))
               else Some (Inr (True,
                 set_slot self index ((buf (entries self) ! index)\<lparr>val := v\<rparr>)))))"

definition map_remove ::
  "('k, 'v) map_kv \<Rightarrow> 'k \<Rightarrow> (fault + bool \<times> ('k, 'v) map_kv) option" where
  "map_remove self k =
    (case hash self of
       None \<Rightarrow> Some (Inl NullCall)
     | Some h \<Rightarrow>
        if cap (entries self) = 0 then Some (Inl DivByZero)
        else Option.bind (map_probe self k (h k mod cap (entries self)))
          (\<lambda>p. case p of
             Inl e \<Rightarrow> Some (Inl e)
           | Inr (found, index) \<Rightarrow>
               if \<not> found then Some (Inr (False, self))
               else Some (Inr (True,
                 (set_slot self index ((buf (entries self) ! index)\<lparr>active := False\<rparr>))
                   \<lparr>active_count := size_sub (active_count self) 1\<rparr>))))"

subsection \<open>Sequences of calls\<close>

text \<open>
  A caller's sequence of operations on one table, run in order; it stops at the first
  fault, and does not return when one of the calls does not. The result lists what each
  call returned and gives the table afterwards.
\<close>

datatype ('k, 'v) map_op = Insert 'k 'v | Update 'k 'v | Remove 'k

definition map_call ::
  "('k::zero, 'v::zero) map_kv \<Rightarrow> ('k, 'v) map_op \<Rightarrow> (fault + bool \<times> ('k, 'v) map_kv) option" where
  "map_call self c =
    (case c of
       Insert k v \<Rightarrow> map_insert self k v
     | Update k v \<Rightarrow> map_update self k v
     | Remove k \<Rightarrow> map_remove self k)"

fun map_run ::
  "('k::zero, 'v::zero) map_kv \<Rightarrow> ('k, 'v) map_op list \<Rightarrow>
   (fault + bool list \<times> ('k, 'v) map_kv) option" where
  "map_run self [] = Some (Inr ([], self))"
| "map_run self (c # cs) =
    Option.bind (map_call self c)
      (\<lambda>r. case r of
         Inl e \<Rightarrow> Some (Inl e)
       | Inr (ok, self') \<Rightarrow>
           Option.bind (map_run self' cs)
             (\<lambda>r'. case r' of
                Inl e \<Rightarrow> Some (Inl e)
              | Inr (oks, self'') \<Rightarrow> Some (Inr (ok # oks, self''))))"

definition inserts :: "('k \<times> 'v) list \<Rightarrow> ('k, 'v) map_op list" where
  "inserts kvs = map (\<lambda>(k, v). Insert k v) kvs"

section \<open>\<open>hash_djb2\<close>\<close>

text \<open>
  The argument is a \<open>char*\<close>: the model is given the bytes from that address to the end of
  its allocation. \<open>strlen\<close> (of the C library) counts the bytes before the first zero byte
  and runs off the allocation when there is none.
\<close>

fun strlen :: "byte list \<Rightarrow> fault + nat" where
  "strlen [] = Inl OutOfBounds"
| "strlen (c # cs) =
    (if c = 0 then Inr 0
     else (case strlen cs of Inl e \<Rightarrow> Inl e | Inr n \<Rightarrow> Inr (Suc n)))"

text \<open>
  \<open>hash + str[i]\<close> converts the \<open>char\<close> to \<open>size_t\<close>. Whether \<open>char\<close> is signed is the
  platform's choice (the parameter \<open>char_signed\<close>): a signed \<open>char\<close> is sign-extended, an
  unsigned one zero-extended. \<open>size_t\<close> is a machine word of any width \<open>'w\<close>.
\<close>

definition char_to_size_t :: "bool \<Rightarrow> byte \<Rightarrow> 'w::len word" where
  "char_to_size_t char_signed c = (if char_signed then scast c else ucast c)"

text \<open>
  \<^verbatim>\<open>for (size_t i = 0; i < strlen(str); i++) {
    if (str[i] == 0) { break; }
    hash = ((hash << 5) + hash) + str[i]; }\<close>
\<close>

function hash_djb2_loop :: "bool \<Rightarrow> byte list \<Rightarrow> 'w::len word \<Rightarrow> nat \<Rightarrow> fault + 'w word" where
  "hash_djb2_loop char_signed str hash_acc i =
    (case strlen str of
       Inl e \<Rightarrow> Inl e
     | Inr n \<Rightarrow>
        if i < n then
          (if str ! i = 0 then Inr hash_acc
           else hash_djb2_loop char_signed str
                  ((push_bit 5 hash_acc + hash_acc) + char_to_size_t char_signed (str ! i))
                  (i + 1))
        else Inr hash_acc)"
  by pat_completeness auto
termination
  by (relation "measure (\<lambda>(char_signed, str, hash_acc, i).
        (case strlen str of Inl e \<Rightarrow> 0 | Inr n \<Rightarrow> n) - i)") auto

declare hash_djb2_loop.simps [simp del]

definition hash_djb2 :: "bool \<Rightarrow> byte list \<Rightarrow> fault + 'w::len word" where
  "hash_djb2 char_signed str = hash_djb2_loop char_signed str 5381 0"

text \<open>
  The specification's words for the same hash: start from \<open>h = 5381\<close> and, for each input
  byte in order, set \<open>h = h * 33 + byte\<close>, in machine-word arithmetic.
\<close>

definition djb2_spec :: "(byte \<Rightarrow> 'w::len word) \<Rightarrow> byte list \<Rightarrow> 'w word" where
  "djb2_spec byte_value bytes = foldl (\<lambda>h b. h * 33 + byte_value b) 5381 bytes"

section \<open>Invariants of the table\<close>

text \<open>
  A well-formed table: both function pointers are set (to \<open>h\<close> and \<open>cmp\<close>), and the backing
  array has as many slots as \<open>entries.cap\<close> says, at least one and a \<open>size_t\<close> many.
\<close>

definition map_wf :: "('k \<Rightarrow> nat) \<Rightarrow> ('k \<Rightarrow> 'k \<Rightarrow> bool) \<Rightarrow> ('k, 'v) map_kv \<Rightarrow> bool" where
  "map_wf h cmp self \<longleftrightarrow>
    hash self = Some h \<and> key_compare self = Some cmp \<and>
    0 < cap (entries self) \<and> cap (entries self) < 2 ^ 64 \<and>
    length (buf (entries self)) = cap (entries self)"

text \<open>The slot a probe visits \<open>d\<close> steps after slot \<open>a mod n\<close> of a table of \<open>n\<close> slots.\<close>

definition probe_pos :: "nat \<Rightarrow> nat \<Rightarrow> nat \<Rightarrow> nat" where
  "probe_pos n a d = (a + d) mod n"

text \<open>The probing loops leave at slot \<open>j\<close>: it is not active, or its key matches.\<close>

definition slot_stops :: "('k \<Rightarrow> 'k \<Rightarrow> bool) \<Rightarrow> ('k, 'v) map_kv \<Rightarrow> 'k \<Rightarrow> nat \<Rightarrow> bool" where
  "slot_stops cmp self k j \<longleftrightarrow>
    \<not> active (buf (entries self) ! j) \<or> cmp (key (buf (entries self) ! j)) k"

text \<open>\<open>active_count\<close> is the number of entries with \<open>active = true\<close>.\<close>

definition count_ok :: "('k, 'v) map_kv \<Rightarrow> bool" where
  "count_ok self \<longleftrightarrow> active_count self = length (filter active (buf (entries self)))"

text \<open>Each key is held by at most one active slot.\<close>

definition keys_unique :: "('k \<Rightarrow> 'k \<Rightarrow> bool) \<Rightarrow> ('k, 'v) map_kv \<Rightarrow> bool" where
  "keys_unique cmp self \<longleftrightarrow>
    (\<forall>i < length (buf (entries self)). \<forall>j < length (buf (entries self)).
       active (buf (entries self) ! i) \<and> active (buf (entries self) ! j) \<and>
       cmp (key (buf (entries self) ! i)) (key (buf (entries self) ! j)) \<longrightarrow> i = j)"

text \<open>
  Every active entry is reached from the slot its key hashes to through active slots only:
  its probe chain is unbroken.
\<close>

definition chains_ok :: "('k \<Rightarrow> nat) \<Rightarrow> ('k, 'v) map_kv \<Rightarrow> bool" where
  "chains_ok h self \<longleftrightarrow>
    (\<forall>j < cap (entries self). active (buf (entries self) ! j) \<longrightarrow>
       (\<exists>d < cap (entries self).
          probe_pos (cap (entries self)) (h (key (buf (entries self) ! j))) d = j \<and>
          (\<forall>d' < d. active (buf (entries self) !
             probe_pos (cap (entries self)) (h (key (buf (entries self) ! j))) d'))))"

text \<open>The active entries of the table are exactly the pairs of the list \<open>kvs\<close>.\<close>

definition table_holds :: "('k, 'v) map_kv \<Rightarrow> ('k \<times> 'v) list \<Rightarrow> bool" where
  "table_holds self kvs \<longleftrightarrow>
    (\<forall>j < cap (entries self). active (buf (entries self) ! j) \<longrightarrow>
       (key (buf (entries self) ! j), val (buf (entries self) ! j)) \<in> set kvs) \<and>
    (\<forall>(k, v) \<in> set kvs. \<exists>j < cap (entries self).
       buf (entries self) ! j = \<lparr>key = k, val = v, active = True\<rparr>)"

text \<open>The keys of a list are pairwise distinct under the caller's equality.\<close>

fun keys_distinct :: "('k \<Rightarrow> 'k \<Rightarrow> bool) \<Rightarrow> 'k list \<Rightarrow> bool" where
  "keys_distinct cmp [] = True"
| "keys_distinct cmp (k # ks) =
    ((\<forall>k' \<in> set ks. \<not> cmp k k' \<and> \<not> cmp k' k) \<and> keys_distinct cmp ks)"

text \<open>
  The caller's equality is an equivalence relation, consistent with the caller's hash
  function: equal keys hash equal.
\<close>

definition equal_consistent :: "('k \<Rightarrow> 'k \<Rightarrow> bool) \<Rightarrow> ('k \<Rightarrow> nat) \<Rightarrow> bool" where
  "equal_consistent cmp h \<longleftrightarrow>
    (\<forall>x. cmp x x) \<and> (\<forall>x y. cmp x y \<longrightarrow> cmp y x) \<and>
    (\<forall>x y z. cmp x y \<longrightarrow> cmp y z \<longrightarrow> cmp x z) \<and> (\<forall>x y. cmp x y \<longrightarrow> h x = h y)"

subsection \<open>The end-to-end scenario\<close>

text \<open>The table a sequence of calls leaves, when every call returns.\<close>

definition map_run_table ::
  "('k::zero, 'v::zero) map_kv \<Rightarrow> ('k, 'v) map_op list \<Rightarrow> ('k, 'v) map_kv option" where
  "map_run_table self cs =
    (case map_run self cs of Some (Inr (oks, self')) \<Rightarrow> Some self' | _ \<Rightarrow> None)"

text \<open>
  The scenario of the specification with numbers for keys: a fresh table, the identity as
  hash function, \<open>=\<close> as equality, and the \<open>n\<close> distinct keys \<open>0, \<dots>, n - 1\<close> inserted in
  order, key \<open>i\<close> with the value \<open>10 * i\<close>.
\<close>

definition scenario_kvs :: "nat \<Rightarrow> (nat \<times> nat) list" where
  "scenario_kvs n = map (\<lambda>i. (i, 10 * i)) [0..<n]"

definition scenario_table :: "nat \<Rightarrow> (nat, nat) map_kv option" where
  "scenario_table n = map_run_table (map_init (\<lambda>k. k) (=)) (inserts (scenario_kvs n))"

subsection \<open>Two small tables\<close>

text \<open>
  Tables of two slots with the identity as hash function and \<open>=\<close> as equality: one with
  both slots active (keys 2 and 3, each in the slot it hashes to), one with key 2 only.
\<close>

definition example_full :: "(nat, nat) map_kv" where
  "example_full =
    \<lparr>entries = \<lparr>buf = [\<lparr>key = 2, val = 20, active = True\<rparr>, \<lparr>key = 3, val = 30, active = True\<rparr>],
                len = 0, cap = 2\<rparr>,
     active_count = 2, hash = Some (\<lambda>k. k), key_compare = Some (=)\<rparr>"

definition example_half :: "(nat, nat) map_kv" where
  "example_half =
    \<lparr>entries = \<lparr>buf = [\<lparr>key = 2, val = 20, active = True\<rparr>, \<lparr>key = 0, val = 0, active = False\<rparr>],
                len = 0, cap = 2\<rparr>,
     active_count = 1, hash = Some (\<lambda>k. k), key_compare = Some (=)\<rparr>"

section \<open>\<open>hash_djb2\<close> computes djb2\<close>

lemma strlen_takeWhile:
  "0 \<in> set str \<Longrightarrow> strlen str = Inr (length (takeWhile (\<lambda>c. c \<noteq> 0) str))"
  by (induction str) auto

lemma djb2_step: "push_bit 5 (h :: 'w::len word) + h = h * 33"
  by (simp add: push_bit_eq_mult)

lemma hash_djb2_loop_foldl:
  assumes "0 \<in> set str" and "i \<le> length (takeWhile (\<lambda>c. c \<noteq> 0) str)"
  shows "hash_djb2_loop sg str h i =
    Inr (foldl (\<lambda>h b. h * 33 + char_to_size_t sg b) h (drop i (takeWhile (\<lambda>c. c \<noteq> 0) str)))"
  using assms(2)
proof (induction "length (takeWhile (\<lambda>c. c \<noteq> 0) str) - i" arbitrary: i h)
  case 0
  then show ?case
    by (subst hash_djb2_loop.simps) (simp add: strlen_takeWhile [OF assms(1)])
next
  case (Suc d)
  let ?tw = "takeWhile (\<lambda>c. c \<noteq> 0) str"
  from Suc.hyps(2) have lt: "i < length ?tw" by simp
  then have nth: "?tw ! i = str ! i"
    by (rule takeWhile_nth)
  have "?tw ! i \<in> set ?tw" using lt by simp
  then have nz: "str ! i \<noteq> 0"
    using nth by (auto dest: set_takeWhileD)
  have dr: "drop i ?tw = str ! i # drop (Suc i) ?tw"
    using lt nth by (simp add: Cons_nth_drop_Suc [symmetric])
  have IH: "hash_djb2_loop sg str (h * 33 + char_to_size_t sg (str ! i)) (Suc i) =
    Inr (foldl (\<lambda>h b. h * 33 + char_to_size_t sg b) (h * 33 + char_to_size_t sg (str ! i))
      (drop (Suc i) ?tw))"
    using Suc.hyps(1) [of "Suc i"] Suc.hyps(2) lt by simp
  show ?case
    by (subst hash_djb2_loop.simps)
       (simp add: strlen_takeWhile [OF assms(1)] lt nz dr djb2_step IH)
qed

lemma scast_ascii:
  assumes "c < (128 :: byte)"
  shows "(scast c :: 'w::len word) = ucast c"
proof -
  have "uint c < 128"
    using assms by (simp add: word_less_def)
  moreover have "- 128 \<le> uint c"
    using uint_ge_0 [of c] by linarith
  ultimately have stb: "signed_take_bit 7 (uint c) = uint c"
    by (intro signed_take_bit_int_eq_self) simp_all
  have "sint c = signed_take_bit 7 (uint c)"
    using sint_uint [of c] by simp
  then have "sint c = uint c"
    using stb by (rule trans)
  then show ?thesis
    unfolding scast_eq ucast_eq by (rule arg_cong)
qed

lemma scast_high:
  assumes "(128 :: byte) \<le> c"
  shows "(scast c :: 'w::len word) = ucast c - 256"
proof -
  have lo: "128 \<le> uint c"
    using assms by (simp add: word_le_def)
  have hi: "uint c < 256"
    using uint_bounded [of c] by simp
  have "uint c + 128 = uint c - 128 + 256"
    by linarith
  then have "(uint c + 128) mod 256 = (uint c - 128 + 256) mod 256"
    by (rule arg_cong)
  also have "\<dots> = (uint c - 128) mod 256"
    by (rule mod_add_self2)
  also have "\<dots> = uint c - 128"
    using lo hi by (intro mod_pos_pos_trivial) simp_all
  finally have m: "(uint c + 128) mod 256 = uint c - 128" .
  have "signed_take_bit 7 (uint c) = take_bit 8 (uint c + 128) - 128"
    using signed_take_bit_eq_take_bit_shift [of 7 "uint c"] by simp
  also have "take_bit 8 (uint c + 128) = (uint c + 128) mod 256"
    by (simp add: take_bit_eq_mod)
  finally have "signed_take_bit 7 (uint c) = uint c - 256"
    using m by simp
  moreover have "sint c = signed_take_bit 7 (uint c)"
    using sint_uint [of c] by simp
  ultimately have "sint c = uint c - 256" by (rule trans [rotated])
  then have "(word_of_int (sint c) :: 'w word) = word_of_int (uint c) - 256"
    by simp
  then show ?thesis
    unfolding scast_eq ucast_eq .
qed

lemma djb2_spec_cong:
  "(\<And>b. b \<in> set bytes \<Longrightarrow> f b = g b) \<Longrightarrow> djb2_spec f bytes = djb2_spec g bytes"
  unfolding djb2_spec_def by (rule foldl_cong) auto

text \<open>
  Claim C9 says that each step adds the byte: \<open>h = h * 33 + byte\<close>. The loop adds \<open>str[i]\<close>,
  a \<open>char\<close>, which C converts to \<open>size_t\<close> by value. Where \<open>char\<close> is signed (x86-64 with GCC
  or Clang) the byte 255 is the \<open>char\<close> \<open>-1\<close>: the hash of the one-byte string 255 is
  \<open>5381 * 33 - 1\<close>, not \<open>5381 * 33 + 255\<close>.
\<close>

theorem hash_djb2_signed_char:
  "hash_djb2 True [255, 0] = Inr (177572 :: 64 word) \<and>
   djb2_spec ucast [255 :: byte] = (177828 :: 64 word)"
proof -
  have "hash_djb2 True [255, 0] = Inr (177572 :: 64 word)"
    using hash_djb2_loop_foldl [of "[255, 0]" 0 True "5381 :: 64 word"]
    by (simp add: hash_djb2_def char_to_size_t_def)
  then show ?thesis by (simp add: djb2_spec_def)
qed

text \<open>
  Claim C9, amended. For every null-terminated byte string, \<open>hash_djb2\<close> returns the value
  computed by starting from \<open>h = 5381\<close> and, for each byte before the terminator in order,
  setting \<open>h = h * 33 + c\<close> in arithmetic modulo \<open>2 ^ w\<close> (the arithmetic of \<open>'w word\<close>), where
  \<open>c\<close> is the byte as C converts the \<open>char\<close> to \<open>size_t\<close>: the byte's value between 0 and 255
  where \<open>char\<close> is unsigned or the byte is below 128, and that value minus 256 for a byte of
  128 or more where \<open>char\<close> is signed. So the hash is the claim's \<open>h * 33 + byte\<close> whenever
  \<open>char\<close> is unsigned or every byte of the string is below 128.
\<close>

theorem hash_djb2_is_djb2:
  assumes "0 \<in> set str"
  shows "hash_djb2 char_signed str =
      Inr (djb2_spec (char_to_size_t char_signed) (takeWhile (\<lambda>c. c \<noteq> 0) str) :: 'w::len word) \<and>
    (\<forall>c. (\<not> char_signed \<or> c < 128 \<longrightarrow>
            (char_to_size_t char_signed c :: 'w word) = ucast c) \<and>
         (char_signed \<and> 128 \<le> c \<longrightarrow>
            (char_to_size_t char_signed c :: 'w word) = ucast c - 256)) \<and>
    ((\<not> char_signed \<or> (\<forall>c \<in> set str. c < 128)) \<longrightarrow>
      hash_djb2 char_signed str =
        Inr (djb2_spec ucast (takeWhile (\<lambda>c. c \<noteq> 0) str) :: 'w word))"
proof -
  have main: "hash_djb2 char_signed str =
      Inr (djb2_spec (char_to_size_t char_signed) (takeWhile (\<lambda>c. c \<noteq> 0) str) :: 'w word)"
    using hash_djb2_loop_foldl [OF assms, of 0 char_signed 5381]
    by (simp add: hash_djb2_def djb2_spec_def)
  have conv: "(\<not> char_signed \<or> c < 128 \<longrightarrow>
            (char_to_size_t char_signed c :: 'w word) = ucast c) \<and>
         (char_signed \<and> 128 \<le> c \<longrightarrow>
            (char_to_size_t char_signed c :: 'w word) = ucast c - 256)" for c
    by (auto simp: char_to_size_t_def scast_ascii scast_high)
  have "djb2_spec (char_to_size_t char_signed) (takeWhile (\<lambda>c. c \<noteq> 0) str) =
      (djb2_spec ucast (takeWhile (\<lambda>c. c \<noteq> 0) str) :: 'w word)"
    if "\<not> char_signed \<or> (\<forall>c \<in> set str. c < 128)"
  proof (rule djb2_spec_cong)
    fix b assume "b \<in> set (takeWhile (\<lambda>c. c \<noteq> 0) str)"
    then have "b \<in> set str" by (rule set_takeWhileD [THEN conjunct1])
    with that show "(char_to_size_t char_signed b :: 'w word) = ucast b"
      by (auto simp: char_to_size_t_def scast_ascii)
  qed
  with main conv show ?thesis by simp
qed

theorem hash_djb2_is_djb2_witness:
  "(0 :: byte) \<in> set [97, 98, 0] \<and> hash_djb2 True [97, 98, 0] = Inr (5863208 :: 64 word) \<and>
   hash_djb2 True [255, 0] = Inr (177572 :: 64 word) \<and>
   hash_djb2 False [255, 0] = Inr (177828 :: 64 word)"
  using hash_djb2_is_djb2 [of "[97, 98, 0]" True, where ?'w = 64]
    hash_djb2_is_djb2 [of "[255, 0]" True, where ?'w = 64]
    hash_djb2_is_djb2 [of "[255, 0]" False, where ?'w = 64]
  by (simp add: djb2_spec_def char_to_size_t_def)

section \<open>The dynamic array: \<open>dyn_remove\<close> and \<open>dyn_clone\<close>\<close>

text \<open>
  Claim C3 says that \<open>dyn_remove\<close> at an index below the length shifts the elements after
  the index left by one and leaves those before it unchanged. The loop stores to
  \<open>buf[index - 1]\<close>, not to \<open>buf[index]\<close>: on the array 10, 20, 30, 40 the removal at
  index 1 returns 20 and leaves 20, 30, 30 as the live elements (the claim: 10, 30, 40),
  and the removal at index 0 stores to \<open>buf[SIZE_MAX]\<close>, outside the allocation.
\<close>

theorem dyn_remove_overwrites_predecessor:
  "dyn_remove \<lparr>buf = [10, 20, 30, 40 :: nat], len = 4, cap = 4\<rparr> 1 =
     Inr (Some 20, \<lparr>buf = [20, 30, 30, 40], len = 3, cap = 4\<rparr>) \<and>
   dyn_remove \<lparr>buf = [10, 20, 30, 40 :: nat], len = 4, cap = 4\<rparr> 0 = Inl OutOfBounds"
  by (simp add: dyn_remove_def dyn_at_def dyn_remove_loop.simps size_sub_def)

text \<open>
  What \<open>dyn_clone\<close> leaves in the new allocation, whatever \<open>malloc\<close> returned: the first
  \<open>len\<close> bytes of the original, then the bytes \<open>malloc\<close> left there.
\<close>

lemma dyn_clone_block:
  assumes "buf self < length h" and "len self \<le> length (h ! buf self)"
    and "len self \<le> sizeof_T * cap self"
  shows "dyn_clone sizeof_T junk h self =
    Inr (\<lparr>buf = length h, len = len self, cap = cap self\<rparr>,
         h @ [take (len self) (h ! buf self) @ map junk [len self..<sizeof_T * cap self]])"
  using assms
  by (simp add: dyn_clone_def malloc_def memcpy_def nth_append drop_map)

text \<open>
  Claim C7 says that the first \<open>len\<close> elements of the clone equal the original's.
  \<open>dyn_clone\<close> copies \<open>len\<close> bytes, not \<open>len\<close> elements: with \<open>sizeof(T) = 4\<close> and the
  two elements 1 and 2 (little-endian), the clone lies in a fresh allocation, but only
  its first two bytes come from the original; its element 1 is what \<open>malloc\<close> left there
  (zero bytes here), not 2.
\<close>

theorem dyn_clone_copies_len_bytes:
  "dyn_clone 4 (\<lambda>_. 0) [[1, 0, 0, 0, 2, 0, 0, 0]] \<lparr>buf = 0, len = 2, cap = 2\<rparr> =
     Inr (\<lparr>buf = 1, len = 2, cap = 2\<rparr>, [[1, 0, 0, 0, 2, 0, 0, 0], [1, 0, 0, 0, 0, 0, 0, 0]]) \<and>
   dyn_elem 4 [[1, 0, 0, 0, 2, 0, 0, 0], [1, 0, 0, 0, 0, 0, 0, 0]]
     \<lparr>buf = 0, len = 2, cap = 2\<rparr> 1 = [2, 0, 0, 0] \<and>
   dyn_elem 4 [[1, 0, 0, 0, 2, 0, 0, 0], [1, 0, 0, 0, 0, 0, 0, 0]]
     \<lparr>buf = 1, len = 2, cap = 2\<rparr> 1 = [0, 0, 0, 0]"
  by (simp add: dyn_clone_def malloc_def memcpy_def dyn_elem_def upt_rec)

section \<open>The probing loop\<close>

lemma probe_pos_less: "0 < n \<Longrightarrow> probe_pos n a d < n"
  by (simp add: probe_pos_def)

lemma probe_pos_not_le: "0 < n \<Longrightarrow> \<not> n \<le> probe_pos n a d"
  by (simp add: probe_pos_def not_le)

lemma probe_pos_0: "probe_pos n a 0 = a mod n"
  by (simp add: probe_pos_def)

lemma probe_pos_Suc: "Suc (probe_pos n a d) mod n = probe_pos n a (Suc d)"
  by (simp add: probe_pos_def mod_Suc_eq)

lemma probe_pos_onto:
  assumes "j < n"
  shows "\<exists>d < n. probe_pos n a d = j"
proof -
  let ?d = "(j + n - a mod n) mod n"
  have "a mod n < n" using assms by simp
  then have "(a + ?d) mod n = (a mod n + (j + n - a mod n)) mod n"
    by (metis mod_add_eq mod_mod_trivial)
  also have "\<dots> = (j + n) mod n"
    using \<open>a mod n < n\<close> by simp
  also have "\<dots> = j" using assms by simp
  finally have "probe_pos n a ?d = j" by (simp add: probe_pos_def)
  moreover have "?d < n" using assms by simp
  ultimately show ?thesis by blast
qed

lemma first_stop:
  assumes "j < n" and "P j"
  shows "\<exists>d < n. P (probe_pos n a d) \<and> (\<forall>d' < d. \<not> P (probe_pos n a d'))"
proof -
  from probe_pos_onto [OF assms(1), of a] obtain d0 where d0: "d0 < n" "probe_pos n a d0 = j"
    by blast
  define d where "d = (LEAST d. P (probe_pos n a d))"
  have "P (probe_pos n a d0)" using d0 assms by simp
  then have "P (probe_pos n a d)" and "d \<le> d0"
    unfolding d_def by (rule LeastI, rule Least_le)
  moreover have "\<forall>d' < d. \<not> P (probe_pos n a d')"
    unfolding d_def using not_less_Least by blast
  moreover have "d < n" using \<open>d \<le> d0\<close> d0(1) by simp
  ultimately show ?thesis by blast
qed

lemma map_probe_run:
  assumes wf: "map_wf h cmp self"
    and stop: "slot_stops cmp self k (probe_pos (cap (entries self)) a d)"
    and before: "\<forall>d' < d. \<not> slot_stops cmp self k (probe_pos (cap (entries self)) a d')"
    and "d0 \<le> d"
  shows "map_probe self k (probe_pos (cap (entries self)) a d0) =
    Some (Inr (active (buf (entries self) ! probe_pos (cap (entries self)) a d),
               probe_pos (cap (entries self)) a d))"
  using \<open>d0 \<le> d\<close>
proof (induction "d - d0" arbitrary: d0)
  case 0
  then have "d0 = d" by simp
  with wf stop show ?case
    by (subst map_probe.simps)
       (auto simp: map_wf_def slot_stops_def probe_pos_not_le)
next
  case (Suc m)
  then have lt: "d0 < d" by simp
  with before have ns: "\<not> slot_stops cmp self k (probe_pos (cap (entries self)) a d0)"
    by simp
  have IH: "map_probe self k (probe_pos (cap (entries self)) a (Suc d0)) =
    Some (Inr (active (buf (entries self) ! probe_pos (cap (entries self)) a d),
               probe_pos (cap (entries self)) a d))"
    using Suc.hyps(1) [of "Suc d0"] Suc.hyps(2) lt by simp
  from wf ns show ?case
    by (subst map_probe.simps)
       (simp add: map_wf_def slot_stops_def probe_pos_not_le probe_pos_Suc IH)
qed

lemma map_probe_total:
  assumes wf: "map_wf h cmp self"
    and ex: "j < cap (entries self)" "slot_stops cmp self k j"
  shows "\<exists>d < cap (entries self).
    map_probe self k (a mod cap (entries self)) =
      Some (Inr (active (buf (entries self) ! probe_pos (cap (entries self)) a d),
                 probe_pos (cap (entries self)) a d)) \<and>
    slot_stops cmp self k (probe_pos (cap (entries self)) a d) \<and>
    (\<forall>d' < d. \<not> slot_stops cmp self k (probe_pos (cap (entries self)) a d'))"
proof -
  from first_stop [of j "cap (entries self)" "slot_stops cmp self k" a, OF ex]
  obtain d where d: "d < cap (entries self)"
      "slot_stops cmp self k (probe_pos (cap (entries self)) a d)"
      "\<forall>d' < d. \<not> slot_stops cmp self k (probe_pos (cap (entries self)) a d')"
    by blast
  from map_probe_run [OF wf d(2) d(3), of 0] d show ?thesis
    by (auto simp: probe_pos_0)
qed

lemma map_probe_diverges:
  assumes wf: "map_wf h cmp self"
    and all: "\<forall>j < cap (entries self). \<not> slot_stops cmp self k j"
    and "i < cap (entries self)"
  shows "map_probe self k i = None"
proof (rule ccontr)
  assume "map_probe self k i \<noteq> None"
  then obtain y where y: "map_probe self k i = Some y" by auto
  have "\<not> (s = self \<and> k' = k \<and> i' < cap (entries self))"
    if "map_probe s k' i' = Some y'" for s k' i' y'
    using that
  proof (induction rule: map_probe.raw_induct [rotated 1, consumes 1])
    case (1 probe s k' i' y')
    show ?case
    proof
      assume eq: "s = self \<and> k' = k \<and> i' < cap (entries self)"
      with all have ns: "\<not> slot_stops cmp self k i'" by simp
      have "probe self k ((i' + 1) mod cap (entries self)) = Some y'"
        using 1(2) eq ns wf
        by (auto simp: map_wf_def slot_stops_def split: if_splits)
      from 1(1) [OF this] wf show False
        by (simp add: map_wf_def)
    qed
  qed
  from this [OF y] assms(3) show False by simp
qed

lemma set_slot_simps [simp]:
  "cap (entries (set_slot self i e)) = cap (entries self)"
  "buf (entries (set_slot self i e)) = (buf (entries self))[i := e]"
  "len (entries (set_slot self i e)) = len (entries self)"
  "hash (set_slot self i e) = hash self"
  "key_compare (set_slot self i e) = key_compare self"
  "active_count (set_slot self i e) = active_count self"
  by (simp_all add: set_slot_def)

lemma map_wf_set_slot [simp]: "map_wf h cmp (set_slot self i e) = map_wf h cmp self"
  by (simp add: map_wf_def)

lemma map_wf_active_count [simp]:
  "map_wf h cmp (self\<lparr>active_count := c\<rparr>) = map_wf h cmp self"
  by (simp add: map_wf_def)

subsection \<open>Growth\<close>

lemma map_insert_null_hash:
  "hash nm = None \<Longrightarrow> active_count nm < cap (entries nm) \<Longrightarrow>
   map_insert nm k v = Some (Inl NullCall)"
  by (subst map_insert.simps) simp

lemma map_resize_loop_null:
  assumes "hash nm = None" and "active_count nm < cap (entries nm)"
    and "cap (entries self) \<le> length (buf (entries self))"
  shows "map_resize_loop map_insert self nm i = Some (Inl NullCall) \<or>
         map_resize_loop map_insert self nm i = Some (Inr nm)"
proof (induction "cap (entries self) - i" arbitrary: i)
  case 0
  then show ?case
    by (subst (1 2) map_resize_loop.simps) simp
next
  case (Suc m)
  then have lt: "i < cap (entries self)" by simp
  have IH: "map_resize_loop map_insert self nm (Suc i) = Some (Inl NullCall) \<or>
         map_resize_loop map_insert self nm (Suc i) = Some (Inr nm)"
    using Suc.hyps(1) [of "Suc i"] Suc.hyps(2) by simp
  show ?case
  proof (cases "active (buf (entries self) ! i)")
    case True
    then have "map_resize_loop map_insert self nm i = Some (Inl NullCall)"
      using lt assms
      by (subst map_resize_loop.simps) (simp add: map_insert_null_hash)
    then show ?thesis by simp
  next
    case False
    then have "map_resize_loop map_insert self nm i = map_resize_loop map_insert self nm (Suc i)"
      using lt assms(3)
      by (subst map_resize_loop.simps) simp
    with IH show ?thesis by simp
  qed
qed

lemma map_insert_growth:
  assumes "cap (entries self) \<le> active_count self"
    and "cap (entries self) \<le> length (buf (entries self))"
  shows "map_insert self k v = Some (Inl NullCall)"
proof -
  let ?nm = "\<lparr>entries = dyn_init_with_cap (cap (entries self) * 2 + 1), active_count = 0,
       hash = None, key_compare = None\<rparr> :: ('a, 'b) map_kv"
  have "map_resize_with map_insert self = Some (Inl NullCall) \<or>
        map_resize_with map_insert self = Some (Inr ?nm)"
    unfolding map_resize_with_def
    by (rule map_resize_loop_null) (simp_all add: dyn_init_with_cap_def assms(2))
  then show ?thesis
    using assms(1) by (subst map_insert.simps) auto
qed

lemma map_insert_small:
  assumes "map_wf h cmp self" and "active_count self < cap (entries self)"
  shows "map_insert self k v =
    Option.bind (map_probe self k (h k mod cap (entries self)))
      (\<lambda>p. case p of
         Inl e \<Rightarrow> Some (Inl e)
       | Inr (found, index) \<Rightarrow>
           if found then Some (Inr (False, self))
           else Some (Inr (True,
             (set_slot self index \<lparr>key = k, val = v, active = True\<rparr>)
               \<lparr>active_count := active_count self + 1\<rparr>)))"
  using assms by (subst map_insert.simps) (simp add: map_wf_def)

lemma map_insert_returns:
  assumes "map_wf h cmp self" and "map_insert self k v = Some (Inr r)"
  shows "active_count self < cap (entries self)"
proof (rule ccontr)
  assume "\<not> active_count self < cap (entries self)"
  then have "map_insert self k v = Some (Inl NullCall)"
    using assms(1) by (intro map_insert_growth) (simp_all add: map_wf_def)
  with assms(2) show False by simp
qed

subsection \<open>Counting the active entries\<close>

lemma count_set_active:
  "i < length xs \<Longrightarrow> \<not> P (xs ! i) \<Longrightarrow> P e \<Longrightarrow>
   length (filter P (xs[i := e])) = Suc (length (filter P xs))"
  by (induction xs arbitrary: i) (auto split: nat.splits)

lemma count_clear_active:
  "i < length xs \<Longrightarrow> P (xs ! i) \<Longrightarrow> \<not> P e \<Longrightarrow>
   Suc (length (filter P (xs[i := e]))) = length (filter P xs)"
  by (induction xs arbitrary: i) (auto split: nat.splits)

lemma count_same_active:
  "i < length xs \<Longrightarrow> P (xs ! i) = P e \<Longrightarrow>
   length (filter P (xs[i := e])) = length (filter P xs)"
  by (induction xs arbitrary: i) (auto split: nat.splits)

lemma count_less_inactive:
  assumes "length (filter P xs) < length xs"
  shows "\<exists>j < length xs. \<not> P (xs ! j)"
proof (rule ccontr)
  assume "\<not> ?thesis"
  then have "\<forall>x \<in> set xs. P x" by (auto simp: in_set_conv_nth)
  then have "filter P xs = xs" by simp
  with assms show False by simp
qed

subsection \<open>What the three mutating operations return\<close>

lemma map_insert_spec:
  assumes wf: "map_wf h cmp self"
    and small: "active_count self < cap (entries self)"
    and ex: "j < cap (entries self)" "slot_stops cmp self k j"
  shows "\<exists>d < cap (entries self).
    slot_stops cmp self k (probe_pos (cap (entries self)) (h k) d) \<and>
    (\<forall>d' < d. \<not> slot_stops cmp self k (probe_pos (cap (entries self)) (h k) d')) \<and>
    map_insert self k v =
      Some (Inr (if active (buf (entries self) ! probe_pos (cap (entries self)) (h k) d)
        then (False, self)
        else (True, (set_slot self (probe_pos (cap (entries self)) (h k) d)
                       \<lparr>key = k, val = v, active = True\<rparr>)
                    \<lparr>active_count := active_count self + 1\<rparr>)))"
proof -
  from map_probe_total [OF wf ex, of "h k"] obtain d where d: "d < cap (entries self)"
    "map_probe self k (h k mod cap (entries self)) =
      Some (Inr (active (buf (entries self) ! probe_pos (cap (entries self)) (h k) d),
                 probe_pos (cap (entries self)) (h k) d))"
    "slot_stops cmp self k (probe_pos (cap (entries self)) (h k) d)"
    "\<forall>d' < d. \<not> slot_stops cmp self k (probe_pos (cap (entries self)) (h k) d')"
    by blast
  have "map_insert self k v =
      Some (Inr (if active (buf (entries self) ! probe_pos (cap (entries self)) (h k) d)
        then (False, self)
        else (True, (set_slot self (probe_pos (cap (entries self)) (h k) d)
                       \<lparr>key = k, val = v, active = True\<rparr>)
                    \<lparr>active_count := active_count self + 1\<rparr>)))"
    by (simp add: map_insert_small [OF wf small] d(2))
  with d show ?thesis by blast
qed

lemma map_update_spec:
  assumes wf: "map_wf h cmp self"
    and ex: "j < cap (entries self)" "slot_stops cmp self k j"
  shows "\<exists>d < cap (entries self).
    slot_stops cmp self k (probe_pos (cap (entries self)) (h k) d) \<and>
    (\<forall>d' < d. \<not> slot_stops cmp self k (probe_pos (cap (entries self)) (h k) d')) \<and>
    map_update self k v =
      Some (Inr (if \<not> active (buf (entries self) ! probe_pos (cap (entries self)) (h k) d)
        then (False, self)
        else (True, set_slot self (probe_pos (cap (entries self)) (h k) d)
                ((buf (entries self) ! probe_pos (cap (entries self)) (h k) d)\<lparr>val := v\<rparr>))))"
proof -
  from map_probe_total [OF wf ex, of "h k"] obtain d where d: "d < cap (entries self)"
    "map_probe self k (h k mod cap (entries self)) =
      Some (Inr (active (buf (entries self) ! probe_pos (cap (entries self)) (h k) d),
                 probe_pos (cap (entries self)) (h k) d))"
    "slot_stops cmp self k (probe_pos (cap (entries self)) (h k) d)"
    "\<forall>d' < d. \<not> slot_stops cmp self k (probe_pos (cap (entries self)) (h k) d')"
    by blast
  have "map_update self k v =
      Some (Inr (if \<not> active (buf (entries self) ! probe_pos (cap (entries self)) (h k) d)
        then (False, self)
        else (True, set_slot self (probe_pos (cap (entries self)) (h k) d)
                ((buf (entries self) ! probe_pos (cap (entries self)) (h k) d)\<lparr>val := v\<rparr>))))"
    using wf by (simp add: map_update_def map_wf_def d(2))
  with d show ?thesis by blast
qed

lemma map_remove_spec:
  assumes wf: "map_wf h cmp self"
    and ex: "j < cap (entries self)" "slot_stops cmp self k j"
  shows "\<exists>d < cap (entries self).
    slot_stops cmp self k (probe_pos (cap (entries self)) (h k) d) \<and>
    (\<forall>d' < d. \<not> slot_stops cmp self k (probe_pos (cap (entries self)) (h k) d')) \<and>
    map_remove self k =
      Some (Inr (if \<not> active (buf (entries self) ! probe_pos (cap (entries self)) (h k) d)
        then (False, self)
        else (True, (set_slot self (probe_pos (cap (entries self)) (h k) d)
                ((buf (entries self) ! probe_pos (cap (entries self)) (h k) d)\<lparr>active := False\<rparr>))
              \<lparr>active_count := size_sub (active_count self) 1\<rparr>)))"
proof -
  from map_probe_total [OF wf ex, of "h k"] obtain d where d: "d < cap (entries self)"
    "map_probe self k (h k mod cap (entries self)) =
      Some (Inr (active (buf (entries self) ! probe_pos (cap (entries self)) (h k) d),
                 probe_pos (cap (entries self)) (h k) d))"
    "slot_stops cmp self k (probe_pos (cap (entries self)) (h k) d)"
    "\<forall>d' < d. \<not> slot_stops cmp self k (probe_pos (cap (entries self)) (h k) d')"
    by blast
  have "map_remove self k =
      Some (Inr (if \<not> active (buf (entries self) ! probe_pos (cap (entries self)) (h k) d)
        then (False, self)
        else (True, (set_slot self (probe_pos (cap (entries self)) (h k) d)
                ((buf (entries self) ! probe_pos (cap (entries self)) (h k) d)\<lparr>active := False\<rparr>))
              \<lparr>active_count := size_sub (active_count self) 1\<rparr>)))"
    using wf by (simp add: map_remove_def map_wf_def d(2))
  with d show ?thesis by blast
qed

text \<open>Where no slot stops the probe, \<open>map_update\<close> and \<open>map_remove\<close> do not return.\<close>

lemma map_update_diverges:
  assumes "map_wf h cmp self" and "\<forall>j < cap (entries self). \<not> slot_stops cmp self k j"
  shows "map_update self k v = None"
  using assms map_probe_diverges [OF assms, of "h k mod cap (entries self)"]
  by (simp add: map_update_def map_wf_def)

lemma map_remove_diverges:
  assumes "map_wf h cmp self" and "\<forall>j < cap (entries self). \<not> slot_stops cmp self k j"
  shows "map_remove self k = None"
  using assms map_probe_diverges [OF assms, of "h k mod cap (entries self)"]
  by (simp add: map_remove_def map_wf_def)

text \<open>A probe that returns has left at a slot that stops it.\<close>

lemma map_probe_returns_stop:
  assumes wf: "map_wf h cmp self" and "i < cap (entries self)"
    and "map_probe self k i = Some r"
  shows "\<exists>j < cap (entries self). slot_stops cmp self k j"
proof (rule ccontr)
  assume "\<not> ?thesis"
  then have "\<forall>j < cap (entries self). \<not> slot_stops cmp self k j" by simp
  from map_probe_diverges [OF wf this assms(2)] assms(3) show False by simp
qed

subsection \<open>Case rules for calls that return\<close>

lemma inactive_slot:
  assumes "map_wf h cmp self" and "count_ok self" and "active_count self < cap (entries self)"
  shows "\<exists>j < cap (entries self). \<not> active (buf (entries self) ! j)"
  using assms count_less_inactive [of active "buf (entries self)"]
  by (simp add: map_wf_def count_ok_def)

lemma map_insert_cases:
  assumes wf: "map_wf h cmp self" and cnt: "count_ok self"
    and ret: "map_insert self k v = Some (Inr (b, self'))"
  obtains (duplicate) d where "d < cap (entries self)"
      "active (buf (entries self) ! probe_pos (cap (entries self)) (h k) d)"
      "cmp (key (buf (entries self) ! probe_pos (cap (entries self)) (h k) d)) k"
      "\<not> b" "self' = self"
  | (stored) d where "d < cap (entries self)"
      "\<not> active (buf (entries self) ! probe_pos (cap (entries self)) (h k) d)"
      "\<forall>d' < d. active (buf (entries self) ! probe_pos (cap (entries self)) (h k) d') \<and>
         \<not> cmp (key (buf (entries self) ! probe_pos (cap (entries self)) (h k) d')) k"
      "b" "self' = (set_slot self (probe_pos (cap (entries self)) (h k) d)
                       \<lparr>key = k, val = v, active = True\<rparr>)
                    \<lparr>active_count := active_count self + 1\<rparr>"
proof -
  have small: "active_count self < cap (entries self)"
    using map_insert_returns [OF wf ret] .
  from inactive_slot [OF wf cnt small] obtain j where
    j: "j < cap (entries self)" "slot_stops cmp self k j"
    by (auto simp: slot_stops_def)
  from map_insert_spec [OF wf small j, of v] ret obtain d where d: "d < cap (entries self)"
    "slot_stops cmp self k (probe_pos (cap (entries self)) (h k) d)"
    "\<forall>d' < d. \<not> slot_stops cmp self k (probe_pos (cap (entries self)) (h k) d')"
    "(b, self') = (if active (buf (entries self) ! probe_pos (cap (entries self)) (h k) d)
        then (False, self)
        else (True, (set_slot self (probe_pos (cap (entries self)) (h k) d)
                       \<lparr>key = k, val = v, active = True\<rparr>)
                    \<lparr>active_count := active_count self + 1\<rparr>))"
    by auto
  show thesis
  proof (cases "active (buf (entries self) ! probe_pos (cap (entries self)) (h k) d)")
    case True
    with d show thesis
      by (intro duplicate [of d]) (auto simp: slot_stops_def)
  next
    case False
    with d show thesis
      by (intro stored [of d]) (auto simp: slot_stops_def)
  qed
qed

lemma map_update_cases:
  assumes wf: "map_wf h cmp self"
    and ret: "map_update self k v = Some (Inr (b, self'))"
  obtains (absent) "\<not> b" "self' = self"
  | (found) s where "s < cap (entries self)" "active (buf (entries self) ! s)"
      "cmp (key (buf (entries self) ! s)) k" "b"
      "self' = set_slot self s ((buf (entries self) ! s)\<lparr>val := v\<rparr>)"
proof -
  from ret wf obtain r where "map_probe self k (h k mod cap (entries self)) = Some r"
    by (auto simp: map_update_def map_wf_def Option.bind_eq_Some_conv)
  from map_probe_returns_stop [OF wf _ this] wf obtain j where
    j: "j < cap (entries self)" "slot_stops cmp self k j"
    by (auto simp: map_wf_def)
  from map_update_spec [OF wf j, of v] ret obtain d where d: "d < cap (entries self)"
    "slot_stops cmp self k (probe_pos (cap (entries self)) (h k) d)"
    "(b, self') = (if \<not> active (buf (entries self) ! probe_pos (cap (entries self)) (h k) d)
        then (False, self)
        else (True, set_slot self (probe_pos (cap (entries self)) (h k) d)
                ((buf (entries self) ! probe_pos (cap (entries self)) (h k) d)\<lparr>val := v\<rparr>)))"
    by auto
  have pos: "probe_pos (cap (entries self)) (h k) d < cap (entries self)"
    using wf by (simp add: probe_pos_less map_wf_def)
  show thesis
  proof (cases "active (buf (entries self) ! probe_pos (cap (entries self)) (h k) d)")
    case True
    with d pos show thesis
      by (intro found [of "probe_pos (cap (entries self)) (h k) d"]) (auto simp: slot_stops_def)
  next
    case False
    with d show thesis
      by (intro absent) auto
  qed
qed

lemma map_remove_cases:
  assumes wf: "map_wf h cmp self"
    and ret: "map_remove self k = Some (Inr (b, self'))"
  obtains (absent) "\<not> b" "self' = self"
  | (found) s where "s < cap (entries self)" "active (buf (entries self) ! s)"
      "cmp (key (buf (entries self) ! s)) k" "b"
      "self' = (set_slot self s ((buf (entries self) ! s)\<lparr>active := False\<rparr>))
                 \<lparr>active_count := size_sub (active_count self) 1\<rparr>"
proof -
  from ret wf obtain r where "map_probe self k (h k mod cap (entries self)) = Some r"
    by (auto simp: map_remove_def map_wf_def Option.bind_eq_Some_conv)
  from map_probe_returns_stop [OF wf _ this] wf obtain j where
    j: "j < cap (entries self)" "slot_stops cmp self k j"
    by (auto simp: map_wf_def)
  from map_remove_spec [OF wf j] ret obtain d where d: "d < cap (entries self)"
    "slot_stops cmp self k (probe_pos (cap (entries self)) (h k) d)"
    "(b, self') = (if \<not> active (buf (entries self) ! probe_pos (cap (entries self)) (h k) d)
        then (False, self)
        else (True, (set_slot self (probe_pos (cap (entries self)) (h k) d)
                ((buf (entries self) ! probe_pos (cap (entries self)) (h k) d)\<lparr>active := False\<rparr>))
              \<lparr>active_count := size_sub (active_count self) 1\<rparr>))"
    by auto
  have pos: "probe_pos (cap (entries self)) (h k) d < cap (entries self)"
    using wf by (simp add: probe_pos_less map_wf_def)
  show thesis
  proof (cases "active (buf (entries self) ! probe_pos (cap (entries self)) (h k) d)")
    case True
    with d pos show thesis
      by (intro found [of "probe_pos (cap (entries self)) (h k) d"]) (auto simp: slot_stops_def)
  next
    case False
    with d show thesis
      by (intro absent) auto
  qed
qed

subsection \<open>The count of active entries\<close>

lemma map_insert_count:
  assumes wf: "map_wf h cmp self" and cnt: "count_ok self"
    and ret: "map_insert self k v = Some (Inr (b, self'))"
  shows "map_wf h cmp self' \<and> count_ok self' \<and> cap (entries self') = cap (entries self)"
  using wf cnt ret
proof (cases rule: map_insert_cases)
  case (duplicate d)
  with wf cnt show ?thesis by simp
next
  case (stored d)
  have "probe_pos (cap (entries self)) (h k) d < length (buf (entries self))"
    using wf by (simp add: map_wf_def probe_pos_less)
  with stored wf cnt show ?thesis
    by (simp add: count_ok_def count_set_active)
qed

lemma map_update_count:
  assumes wf: "map_wf h cmp self" and cnt: "count_ok self"
    and ret: "map_update self k v = Some (Inr (b, self'))"
  shows "map_wf h cmp self' \<and> count_ok self' \<and> cap (entries self') = cap (entries self)"
  using wf ret
proof (cases rule: map_update_cases)
  case absent
  with wf cnt show ?thesis by simp
next
  case (found s)
  with wf cnt show ?thesis
    by (simp add: count_ok_def count_same_active map_wf_def)
qed

lemma size_sub_1:
  assumes "0 < c" and "c < 2 ^ 64"
  shows "size_sub c 1 = c - 1"
proof -
  from assms(1) obtain c' where c': "c = Suc c'" by (cases c) auto
  then have "size_sub c 1 = (c' + 2 ^ 64) mod 2 ^ 64"
    by (simp add: size_sub_def add.commute)
  also have "\<dots> = c'" using assms(2) c' by simp
  finally show ?thesis using c' by simp
qed

lemma map_remove_count:
  assumes wf: "map_wf h cmp self" and cnt: "count_ok self"
    and ret: "map_remove self k = Some (Inr (b, self'))"
  shows "map_wf h cmp self' \<and> count_ok self' \<and> cap (entries self') = cap (entries self)"
  using wf ret
proof (cases rule: map_remove_cases)
  case absent
  with wf cnt show ?thesis by simp
next
  case (found s)
  let ?B = "buf (entries self)"
  have s: "s < length ?B" using found(1) wf by (simp add: map_wf_def)
  have dec: "Suc (length (filter active (?B[s := (?B ! s)\<lparr>active := False\<rparr>]))) =
      length (filter active ?B)"
    using s found(2) by (intro count_clear_active) simp_all
  have le: "length (filter active ?B) \<le> length ?B" by (rule length_filter_le)
  have ac: "active_count self = length (filter active ?B)"
    using cnt by (simp add: count_ok_def)
  have "length ?B < 2 ^ 64" using wf by (simp add: map_wf_def)
  with le ac have b1: "active_count self < 2 ^ 64" by linarith
  from dec ac have b2: "0 < active_count self" by linarith
  have new: "size_sub (active_count self) 1 =
      length (filter active (?B[s := (?B ! s)\<lparr>active := False\<rparr>]))"
    using size_sub_1 [OF b2 b1] dec ac by simp
  show ?thesis
    unfolding found(5) using wf new by (simp add: count_ok_def)
qed

lemma count_ok_le_cap:
  "map_wf h cmp self \<Longrightarrow> count_ok self \<Longrightarrow> active_count self \<le> cap (entries self)"
  using length_filter_le [of active "buf (entries self)"]
  by (simp add: map_wf_def count_ok_def)

subsection \<open>Unbroken probe chains\<close>

lemma chains_ok_insert:
  assumes wf: "map_wf h cmp self" and cnt: "count_ok self" and ch: "chains_ok h self"
    and ret: "map_insert self k v = Some (Inr (b, self'))"
  shows "chains_ok h self'"
  using wf cnt ret
proof (cases rule: map_insert_cases)
  case (duplicate d)
  with ch show ?thesis by simp
next
  case (stored d)
  let ?n = "cap (entries self)"
  let ?B = "buf (entries self)"
  let ?s = "probe_pos ?n (h k) d"
  let ?B' = "?B[?s := \<lparr>key = k, val = v, active = True\<rparr>]"
  have len: "length ?B = ?n" and n0: "0 < ?n" using wf by (simp_all add: map_wf_def)
  have s: "?s < ?n" using n0 by (simp add: probe_pos_less)
  have mono: "active (?B' ! x)" if "x < ?n" "active (?B ! x)" for x
    using that len by (cases "x = ?s") simp_all
  have "\<exists>d0 < ?n. probe_pos ?n (h (key (?B' ! j))) d0 = j \<and>
      (\<forall>d' < d0. active (?B' ! probe_pos ?n (h (key (?B' ! j))) d'))"
    if j: "j < ?n" "active (?B' ! j)" for j
  proof (cases "j = ?s")
    case True
    then have "key (?B' ! j) = k" using s len by simp
    moreover have "\<forall>d' < d. active (?B' ! probe_pos ?n (h k) d')"
      using stored(3) mono n0 by (simp add: probe_pos_less)
    ultimately show ?thesis
      using True stored(1) by auto
  next
    case False
    then have same: "?B' ! j = ?B ! j" by simp
    with j have "active (?B ! j)" by simp
    with ch j(1) obtain d0 where d0: "d0 < ?n" "probe_pos ?n (h (key (?B ! j))) d0 = j"
      "\<forall>d' < d0. active (?B ! probe_pos ?n (h (key (?B ! j))) d')"
      unfolding chains_ok_def by blast
    from d0(3) have "\<forall>d' < d0. active (?B' ! probe_pos ?n (h (key (?B ! j))) d')"
      using mono n0 by (simp add: probe_pos_less)
    with d0 same show ?thesis by auto
  qed
  then show ?thesis
    unfolding chains_ok_def using stored(5) by simp
qed

lemma chains_ok_update:
  assumes wf: "map_wf h cmp self" and ch: "chains_ok h self"
    and ret: "map_update self k v = Some (Inr (b, self'))"
  shows "chains_ok h self'"
  using wf ret
proof (cases rule: map_update_cases)
  case absent
  with ch show ?thesis by simp
next
  case (found s)
  let ?B = "buf (entries self)"
  let ?B' = "?B[s := (?B ! s)\<lparr>val := v\<rparr>]"
  have len: "length ?B = cap (entries self)" using wf by (simp add: map_wf_def)
  have same: "active (?B' ! x) = active (?B ! x) \<and> key (?B' ! x) = key (?B ! x)" for x
    using len found(1) by (cases "x = s") simp_all
  show ?thesis
    using ch unfolding chains_ok_def found(5) by (simp add: same)
qed

subsection \<open>At most one active slot for each key\<close>

lemma keys_unique_update:
  assumes wf: "map_wf h cmp self" and un: "keys_unique cmp self"
    and ret: "map_update self k v = Some (Inr (b, self'))"
  shows "keys_unique cmp self'"
  using wf ret
proof (cases rule: map_update_cases)
  case absent
  with un show ?thesis by simp
next
  case (found s)
  let ?B = "buf (entries self)"
  let ?B' = "?B[s := (?B ! s)\<lparr>val := v\<rparr>]"
  have len: "length ?B = cap (entries self)" using wf by (simp add: map_wf_def)
  have same: "active (?B' ! x) = active (?B ! x) \<and> key (?B' ! x) = key (?B ! x)" for x
    using len found(1) by (cases "x = s") simp_all
  show ?thesis
    using un unfolding keys_unique_def found(5) by (simp add: same)
qed

lemma keys_unique_remove:
  assumes wf: "map_wf h cmp self" and un: "keys_unique cmp self"
    and ret: "map_remove self k = Some (Inr (b, self'))"
  shows "keys_unique cmp self'"
  using wf ret
proof (cases rule: map_remove_cases)
  case absent
  with un show ?thesis by simp
next
  case (found s)
  let ?B = "buf (entries self)"
  let ?B' = "?B[s := (?B ! s)\<lparr>active := False\<rparr>]"
  have len: "length ?B = cap (entries self)" using wf by (simp add: map_wf_def)
  have same: "(active (?B' ! x) \<longrightarrow> active (?B ! x)) \<and> key (?B' ! x) = key (?B ! x)" for x
    using len found(1) by (cases "x = s") simp_all
  have "i = j" if "i < length ?B" "j < length ?B" "active (?B' ! i)" "active (?B' ! j)"
    "cmp (key (?B' ! i)) (key (?B' ! j))" for i j
    using un that same unfolding keys_unique_def by metis
  then show ?thesis
    unfolding keys_unique_def found(5) by simp
qed

lemma keys_unique_insert:
  assumes wf: "map_wf h cmp self" and cnt: "count_ok self" and ch: "chains_ok h self"
    and un: "keys_unique cmp self"
    and sym: "\<And>x y. cmp x y \<Longrightarrow> cmp y x" and cons: "\<And>x y. cmp x y \<Longrightarrow> h x = h y"
    and ret: "map_insert self k v = Some (Inr (b, self'))"
  shows "keys_unique cmp self'"
  using wf cnt ret
proof (cases rule: map_insert_cases)
  case (duplicate d)
  with un show ?thesis by simp
next
  case (stored d)
  let ?n = "cap (entries self)"
  let ?B = "buf (entries self)"
  let ?s = "probe_pos ?n (h k) d"
  let ?B' = "?B[?s := \<lparr>key = k, val = v, active = True\<rparr>]"
  have len: "length ?B = ?n" and n0: "0 < ?n" using wf by (simp_all add: map_wf_def)
  have s: "?s < ?n" using n0 by (simp add: probe_pos_less)
  have no_match: "\<not> cmp (key (?B ! j)) k" if j: "j < ?n" "active (?B ! j)" "j \<noteq> ?s" for j
  proof
    assume m: "cmp (key (?B ! j)) k"
    then have hk: "h (key (?B ! j)) = h k" by (rule cons)
    from ch j obtain dj where dj: "dj < ?n" "probe_pos ?n (h k) dj = j"
      "\<forall>d' < dj. active (?B ! probe_pos ?n (h k) d')"
      unfolding chains_ok_def hk [symmetric] by blast
    have "dj < d"
    proof (rule ccontr)
      assume "\<not> dj < d"
      with dj(2) j(3) have "d < dj" by (cases "d = dj") auto
      with dj(3) stored(2) show False by simp
    qed
    with stored(3) dj(2) m show False by auto
  qed
  have "i = j" if ij: "i < ?n" "j < ?n" "active (?B' ! i)" "active (?B' ! j)"
    "cmp (key (?B' ! i)) (key (?B' ! j))" for i j
  proof (cases "i = ?s")
    case at_s: True
    show ?thesis
    proof (rule ccontr)
      assume ne: "i \<noteq> j"
      then have "?B' ! j = ?B ! j" using at_s by simp
      moreover have "key (?B' ! i) = k" using at_s s len by simp
      ultimately have "active (?B ! j)" "cmp k (key (?B ! j))" using ij by simp_all
      then show False using no_match [of j] ij(2) ne at_s sym by auto
    qed
  next
    case False
    then have i: "?B' ! i = ?B ! i" by simp
    show ?thesis
    proof (cases "j = ?s")
      case True
      then have "key (?B' ! j) = k" using s len by simp
      with ij i have "active (?B ! i)" "cmp (key (?B ! i)) k" by simp_all
      then show ?thesis using no_match [of i] ij(1) False by auto
    next
      case js: False
      then have "?B' ! j = ?B ! j" by simp
      with ij i un len show ?thesis
        unfolding keys_unique_def by auto
    qed
  qed
  then show ?thesis
    unfolding keys_unique_def stored(5) using len by simp
qed

subsection \<open>\<open>map_get\<close>\<close>

lemma map_get_loop_total:
  assumes wf: "map_wf h cmp self" and "index < cap (entries self)" and "i \<le> cap (entries self)"
  shows "\<exists>idx steps. map_get_loop self k index i = Inr (idx, steps) \<and>
    idx < cap (entries self) \<and> steps \<le> cap (entries self)"
  using assms(2,3)
proof (induction "cap (entries self) - i" arbitrary: i index)
  case 0
  then show ?case
    by (subst map_get_loop.simps) simp
next
  case (Suc m)
  then have lt: "i < cap (entries self)" by simp
  have "\<exists>idx steps. map_get_loop self k (Suc index mod cap (entries self)) (Suc i) = Inr (idx, steps) \<and>
    idx < cap (entries self) \<and> steps \<le> cap (entries self)"
    using Suc.hyps(1) [of "Suc i" "Suc index mod cap (entries self)"] Suc.hyps(2) lt by simp
  with wf lt Suc.prems show ?case
    by (subst map_get_loop.simps) (auto simp: map_wf_def)
qed

lemma map_get_loop_finds:
  assumes wf: "map_wf h cmp self"
    and D: "D < cap (entries self)"
    and act: "\<forall>d \<le> D. active (buf (entries self) ! probe_pos (cap (entries self)) a d)"
    and hit: "cmp (key (buf (entries self) ! probe_pos (cap (entries self)) a D)) k"
    and "i \<le> D"
  shows "\<exists>d \<le> D. map_get_loop self k (probe_pos (cap (entries self)) a i) i =
        Inr (probe_pos (cap (entries self)) a d, d) \<and>
      cmp (key (buf (entries self) ! probe_pos (cap (entries self)) a d)) k"
  using \<open>i \<le> D\<close>
proof (induction "D - i" arbitrary: i)
  case 0
  then have "i = D" by simp
  with wf D act hit show ?case
    by (subst map_get_loop.simps) (auto simp: map_wf_def probe_pos_not_le)
next
  case (Suc m)
  then have lt: "i < D" by simp
  let ?p = "probe_pos (cap (entries self)) a"
  have IH: "\<exists>d \<le> D. map_get_loop self k (?p (Suc i)) (Suc i) = Inr (?p d, d) \<and>
      cmp (key (buf (entries self) ! ?p d)) k"
    using Suc.hyps(1) [of "Suc i"] Suc.hyps(2) lt by simp
  have a: "active (buf (entries self) ! ?p i)" using act lt by simp
  show ?case
  proof (cases "cmp (key (buf (entries self) ! ?p i)) k")
    case True
    with wf D lt a have "map_get_loop self k (?p i) i = Inr (?p i, i)"
      by (subst map_get_loop.simps) (simp add: map_wf_def probe_pos_not_le)
    with True lt show ?thesis by (intro exI [of _ i]) simp
  next
    case False
    with wf D lt a have "map_get_loop self k (?p i) i = map_get_loop self k (?p (Suc i)) (Suc i)"
      by (subst map_get_loop.simps) (simp add: map_wf_def probe_pos_not_le probe_pos_Suc)
    with IH show ?thesis by simp
  qed
qed

lemma map_get_loop_full:
  assumes wf: "map_wf h cmp self"
    and all: "\<forall>j < cap (entries self). \<not> slot_stops cmp self k j"
    and "i \<le> cap (entries self)"
  shows "map_get_loop self k (probe_pos (cap (entries self)) a i) i =
    Inr (probe_pos (cap (entries self)) a (cap (entries self)), cap (entries self))"
  using assms(3)
proof (induction "cap (entries self) - i" arbitrary: i)
  case 0
  then show ?case
    by (subst map_get_loop.simps) simp
next
  case (Suc m)
  then have lt: "i < cap (entries self)" by simp
  let ?p = "probe_pos (cap (entries self)) a"
  have IH: "map_get_loop self k (?p (Suc i)) (Suc i) =
      Inr (?p (cap (entries self)), cap (entries self))"
    using Suc.hyps(1) [of "Suc i"] Suc.hyps(2) lt by simp
  have "?p i < cap (entries self)" using lt by (simp add: probe_pos_less)
  with all have "\<not> slot_stops cmp self k (?p i)" by simp
  with wf lt IH show ?case
    by (subst map_get_loop.simps)
       (simp add: map_wf_def slot_stops_def probe_pos_not_le probe_pos_Suc)
qed

lemma map_get_total:
  assumes wf: "map_wf h cmp self"
  shows "\<exists>r. map_get self k = Inr (r, self)"
proof -
  have "h k mod cap (entries self) < cap (entries self)"
    using wf by (simp add: map_wf_def)
  from map_get_loop_total [OF wf this, of 0 k] obtain idx steps where
    "map_get_loop self k (h k mod cap (entries self)) 0 = Inr (idx, steps)"
    "idx < cap (entries self)"
    by auto
  with wf show ?thesis
    by (auto simp: map_get_def map_wf_def)
qed

lemma map_get_full_miss:
  assumes wf: "map_wf h cmp self"
    and all: "\<forall>j < cap (entries self). \<not> slot_stops cmp self k j"
  shows "map_get self k = Inr (None, self)"
proof -
  let ?n = "cap (entries self)"
  have n0: "0 < ?n" using wf by (simp add: map_wf_def)
  have loop: "map_get_loop self k (h k mod ?n) 0 = Inr (probe_pos ?n (h k) ?n, ?n)"
    using map_get_loop_full [OF wf all, of 0 "h k"] by (simp add: probe_pos_0)
  have "probe_pos ?n (h k) ?n < ?n" using n0 by (simp add: probe_pos_less)
  with all have "\<not> slot_stops cmp self k (probe_pos ?n (h k) ?n)" by simp
  with wf loop n0 show ?thesis
    by (simp add: map_get_def map_wf_def slot_stops_def probe_pos_not_le)
qed

lemma map_get_hit:
  assumes wf: "map_wf h cmp self"
    and D: "D < cap (entries self)"
    and act: "\<forall>d \<le> D. active (buf (entries self) ! probe_pos (cap (entries self)) (h k) d)"
    and hit: "cmp (key (buf (entries self) ! probe_pos (cap (entries self)) (h k) D)) k"
  shows "\<exists>d \<le> D.
      map_get self k = Inr (Some (buf (entries self) ! probe_pos (cap (entries self)) (h k) d), self) \<and>
      active (buf (entries self) ! probe_pos (cap (entries self)) (h k) d) \<and>
      cmp (key (buf (entries self) ! probe_pos (cap (entries self)) (h k) d)) k"
proof -
  let ?n = "cap (entries self)"
  from map_get_loop_finds [OF wf D act hit, of 0] obtain d where d: "d \<le> D"
    "map_get_loop self k (h k mod ?n) 0 = Inr (probe_pos ?n (h k) d, d)"
    "cmp (key (buf (entries self) ! probe_pos ?n (h k) d)) k"
    by (auto simp: probe_pos_0)
  have a: "active (buf (entries self) ! probe_pos ?n (h k) d)" using act d(1) by simp
  have "map_get self k = Inr (Some (buf (entries self) ! probe_pos ?n (h k) d), self)"
    using wf d(2,3) a by (simp add: map_get_def map_wf_def probe_pos_not_le)
  with d a show ?thesis by blast
qed

section \<open>Failure paths and \<open>map_get\<close>\<close>

lemma example_full_wf: "map_wf (\<lambda>k. k) (=) example_full"
  by (simp add: map_wf_def example_full_def)

lemma example_half_wf: "map_wf (\<lambda>k. k) (=) example_half"
  by (simp add: map_wf_def example_half_def)


subsection \<open>Single steps of the loops\<close>

lemma map_probe_inactive:
  "index < length (buf (entries self)) \<Longrightarrow> \<not> active (buf (entries self) ! index) \<Longrightarrow>
   map_probe self k index = Some (Inr (False, index))"
  by (subst map_probe.simps) simp

lemma map_probe_match:
  "index < length (buf (entries self)) \<Longrightarrow> active (buf (entries self) ! index) \<Longrightarrow>
   key_compare self \<noteq> None \<Longrightarrow>
   the (key_compare self) (key (buf (entries self) ! index)) k \<Longrightarrow>
   map_probe self k index = Some (Inr (True, index))"
  by (subst map_probe.simps) auto

lemma map_probe_next:
  "index < length (buf (entries self)) \<Longrightarrow> active (buf (entries self) ! index) \<Longrightarrow>
   key_compare self \<noteq> None \<Longrightarrow>
   \<not> the (key_compare self) (key (buf (entries self) ! index)) k \<Longrightarrow>
   0 < cap (entries self) \<Longrightarrow>
   map_probe self k index = map_probe self k ((index + 1) mod cap (entries self))"
  by (subst map_probe.simps) auto

lemma map_get_loop_end:
  "cap (entries self) \<le> i \<Longrightarrow> map_get_loop self k index i = Inr (index, i)"
  by (subst map_get_loop.simps) simp

lemma map_get_loop_inactive:
  "i < cap (entries self) \<Longrightarrow> index < length (buf (entries self)) \<Longrightarrow>
   \<not> active (buf (entries self) ! index) \<Longrightarrow> map_get_loop self k index i = Inr (index, i)"
  by (subst map_get_loop.simps) simp

lemma map_get_loop_match:
  "i < cap (entries self) \<Longrightarrow> index < length (buf (entries self)) \<Longrightarrow>
   active (buf (entries self) ! index) \<Longrightarrow> key_compare self \<noteq> None \<Longrightarrow>
   the (key_compare self) (key (buf (entries self) ! index)) k \<Longrightarrow>
   map_get_loop self k index i = Inr (index, i)"
  by (subst map_get_loop.simps) auto

lemma map_get_loop_next:
  "i < cap (entries self) \<Longrightarrow> index < length (buf (entries self)) \<Longrightarrow>
   active (buf (entries self) ! index) \<Longrightarrow> key_compare self \<noteq> None \<Longrightarrow>
   \<not> the (key_compare self) (key (buf (entries self) ! index)) k \<Longrightarrow>
   map_get_loop self k index i =
     map_get_loop self k ((index + 1) mod cap (entries self)) (i + 1)"
  by (subst map_get_loop.simps) auto

lemmas loop_steps = map_probe_inactive map_probe_match map_probe_next
  map_get_loop_end map_get_loop_inactive map_get_loop_match map_get_loop_next

lemma map_resize_loop_faults:
  assumes "hash nm = None" and "active_count nm < cap (entries nm)"
  shows "map_resize_loop map_insert self nm i = Some (Inl OutOfBounds) \<or>
         map_resize_loop map_insert self nm i = Some (Inl NullCall) \<or>
         map_resize_loop map_insert self nm i = Some (Inr nm)"
proof (induction "cap (entries self) - i" arbitrary: i)
  case 0
  then show ?case
    by (subst (1 2 3) map_resize_loop.simps) simp
next
  case (Suc m)
  then have lt: "i < cap (entries self)" by simp
  have IH: "map_resize_loop map_insert self nm (Suc i) = Some (Inl OutOfBounds) \<or>
         map_resize_loop map_insert self nm (Suc i) = Some (Inl NullCall) \<or>
         map_resize_loop map_insert self nm (Suc i) = Some (Inr nm)"
    using Suc.hyps(1) [of "Suc i"] Suc.hyps(2) by simp
  consider (oob) "length (buf (entries self)) \<le> i"
    | (act) "i < length (buf (entries self))" "active (buf (entries self) ! i)"
    | (skip) "i < length (buf (entries self))" "\<not> active (buf (entries self) ! i)"
    by linarith
  then show ?case
  proof cases
    case oob
    then have "map_resize_loop map_insert self nm i = Some (Inl OutOfBounds)"
      using lt by (subst map_resize_loop.simps) simp
    then show ?thesis by simp
  next
    case act
    then have "map_resize_loop map_insert self nm i = Some (Inl NullCall)"
      using lt assms by (subst map_resize_loop.simps) (simp add: map_insert_null_hash)
    then show ?thesis by simp
  next
    case skip
    then have "map_resize_loop map_insert self nm i = map_resize_loop map_insert self nm (Suc i)"
      using lt by (subst map_resize_loop.simps) simp
    with IH show ?thesis by simp
  qed
qed

lemma map_insert_growth_faults:
  assumes "cap (entries self) \<le> active_count self"
  shows "\<exists>e. map_insert self k v = Some (Inl e)"
proof -
  let ?nm = "\<lparr>entries = dyn_init_with_cap (cap (entries self) * 2 + 1), active_count = 0,
       hash = None, key_compare = None\<rparr> :: ('a, 'b) map_kv"
  have "map_resize_with map_insert self = Some (Inl OutOfBounds) \<or>
        map_resize_with map_insert self = Some (Inl NullCall) \<or>
        map_resize_with map_insert self = Some (Inr ?nm)"
    unfolding map_resize_with_def
    by (rule map_resize_loop_faults) (simp_all add: dyn_init_with_cap_def)
  then show ?thesis
    using assms by (subst map_insert.simps) auto
qed

lemma probe_false_unchanged:
  assumes "Option.bind (map_probe self k i)
      (\<lambda>p. case p of
         Inl e \<Rightarrow> Some (Inl e)
       | Inr (found, index) \<Rightarrow>
           if P found then Some (Inr (False, self))
           else Some (Inr (True, f index))) = Some (Inr (False, self'))"
  shows "self' = self"
proof -
  from assms obtain p where p: "map_probe self k i = Some p"
    "(case p of
         Inl e \<Rightarrow> Some (Inl e)
       | Inr (found, index) \<Rightarrow>
           if P found then Some (Inr (False, self))
           else Some (Inr (True, f index))) = Some (Inr (False, self'))"
    by (auto simp: Option.bind_eq_Some_conv)
  show ?thesis
  proof (cases p)
    case (Inl e)
    with p(2) show ?thesis by simp
  next
    case (Inr q)
    obtain found index where "q = (found, index)" by (cases q)
    with Inr p(2) show ?thesis by (cases "P found") simp_all
  qed
qed

lemma map_insert_false_unchanged:
  assumes "map_insert self k v = Some (Inr (False, self'))"
  shows "self' = self"
proof (cases "cap (entries self) \<le> active_count self")
  case True
  from map_insert_growth_faults [OF this, of k v] assms show ?thesis by auto
next
  case False
  show ?thesis
  proof (cases "hash self")
    case None
    with False assms show ?thesis
      by (subst (asm) map_insert.simps) simp
  next
    case (Some h)
    show ?thesis
    proof (cases "cap (entries self) = 0")
      case True
      with False Some assms show ?thesis
        by (subst (asm) map_insert.simps) simp
    next
      case nz: False
      from assms have "Option.bind (map_probe self k (h k mod cap (entries self)))
        (\<lambda>p. case p of
           Inl e \<Rightarrow> Some (Inl e)
         | Inr (found, index) \<Rightarrow>
             if found then Some (Inr (False, self))
             else Some (Inr (True,
               (set_slot self index \<lparr>key = k, val = v, active = True\<rparr>)
                 \<lparr>active_count := active_count self + 1\<rparr>))) = Some (Inr (False, self'))"
        using False Some nz by (subst (asm) map_insert.simps) simp
      then show ?thesis by (rule probe_false_unchanged)
    qed
  qed
qed

lemma map_update_false_unchanged:
  assumes "map_update self k v = Some (Inr (False, self'))"
  shows "self' = self"
proof (cases "hash self")
  case None
  with assms show ?thesis by (simp add: map_update_def)
next
  case (Some h)
  show ?thesis
  proof (cases "cap (entries self) = 0")
    case True
    with Some assms show ?thesis by (simp add: map_update_def)
  next
    case False
    with Some assms show ?thesis
      unfolding map_update_def by simp (rule probe_false_unchanged)
  qed
qed

lemma map_remove_false_unchanged:
  assumes "map_remove self k = Some (Inr (False, self'))"
  shows "self' = self"
proof (cases "hash self")
  case None
  with assms show ?thesis by (simp add: map_remove_def)
next
  case (Some h)
  show ?thesis
  proof (cases "cap (entries self) = 0")
    case True
    with Some assms show ?thesis by (simp add: map_remove_def)
  next
    case False
    with Some assms show ?thesis
      unfolding map_remove_def by simp (rule probe_false_unchanged)
  qed
qed

lemma dyn_remove_out_of_range:
  "len self \<le> index \<Longrightarrow> dyn_remove self index = Inr (None, self)"
  by (simp add: dyn_remove_def dyn_at_def)

lemma dyn_remove_none_unchanged:
  "dyn_remove self index = Inr (None, self') \<Longrightarrow> self' = self"
  by (auto simp: dyn_remove_def dyn_at_def split: if_splits sum.splits)

text \<open>
  Claim C6. Every operation that reports failure leaves the structure unchanged:
  \<open>dyn_remove\<close> with an index that is not below the length returns \<open>ok = false\<close> and the
  array as it was; whenever \<open>map_insert\<close>, \<open>map_update\<close> or \<open>map_remove\<close> returns \<open>false\<close>,
  the table it leaves is the table it was given. (A \<open>map_insert\<close> that grows the table
  first never returns \<open>false\<close>: it faults, see \<open>map_insert_growth\<close>.)
\<close>

theorem failure_leaves_state_unchanged:
  "(len d \<le> index \<longrightarrow> dyn_remove d index = Inr (None, d)) \<and>
   (dyn_remove d index = Inr (None, d') \<longrightarrow> d' = d) \<and>
   (map_insert self k v = Some (Inr (False, self')) \<longrightarrow> self' = self) \<and>
   (map_update self k v = Some (Inr (False, self')) \<longrightarrow> self' = self) \<and>
   (map_remove self k = Some (Inr (False, self')) \<longrightarrow> self' = self)"
proof (intro conjI impI)
  assume "len d \<le> index"
  then show "dyn_remove d index = Inr (None, d)" by (rule dyn_remove_out_of_range)
next
  assume "dyn_remove d index = Inr (None, d')"
  then show "d' = d" by (rule dyn_remove_none_unchanged)
next
  assume "map_insert self k v = Some (Inr (False, self'))"
  then show "self' = self" by (rule map_insert_false_unchanged)
next
  assume "map_update self k v = Some (Inr (False, self'))"
  then show "self' = self" by (rule map_update_false_unchanged)
next
  assume "map_remove self k = Some (Inr (False, self'))"
  then show "self' = self" by (rule map_remove_false_unchanged)
qed

lemma example_half_insert: "\<exists>m. map_insert example_half 2 99 = Some (Inr (False, m))"
proof -
  have "active_count example_half < cap (entries example_half)"
    by (simp add: example_half_def)
  from map_insert_small [OF example_half_wf this, of 2 99] show ?thesis
    by (simp add: example_half_def loop_steps)
qed

lemma example_half_update: "\<exists>m. map_update example_half 3 99 = Some (Inr (False, m))"
  by (simp add: map_update_def example_half_def loop_steps)

lemma example_half_remove: "\<exists>m. map_remove example_half 3 = Some (Inr (False, m))"
  by (simp add: map_remove_def example_half_def loop_steps)

theorem failure_leaves_state_unchanged_witness:
  "dyn_remove \<lparr>buf = [1, 2, 3 :: nat], len = 3, cap = 3\<rparr> 5 =
     Inr (None, \<lparr>buf = [1, 2, 3], len = 3, cap = 3\<rparr>) \<and>
   map_insert example_half 2 99 = Some (Inr (False, example_half)) \<and>
   map_update example_half 3 99 = Some (Inr (False, example_half)) \<and>
   map_remove example_half 3 = Some (Inr (False, example_half))"
proof -
  have "dyn_remove \<lparr>buf = [1, 2, 3 :: nat], len = 3, cap = 3\<rparr> 5 =
     Inr (None, \<lparr>buf = [1, 2, 3], len = 3, cap = 3\<rparr>)"
    using failure_leaves_state_unchanged
      [of "\<lparr>buf = [1, 2, 3 :: nat], len = 3, cap = 3\<rparr>" 5, THEN conjunct1]
    by simp
  moreover have "map_insert example_half 2 99 = Some (Inr (False, example_half))"
    using example_half_insert failure_leaves_state_unchanged [of _ _ _ example_half 2 99]
    by blast
  moreover have "map_update example_half 3 99 = Some (Inr (False, example_half))"
    using example_half_update failure_leaves_state_unchanged [of _ _ _ example_half 3 99]
    by blast
  moreover have "map_remove example_half 3 = Some (Inr (False, example_half))"
    using example_half_remove failure_leaves_state_unchanged [of _ _ _ example_half 3]
    by blast
  ultimately show ?thesis by simp
qed

text \<open>
  Claim C10. On a well-formed table \<open>map_get\<close> returns (the function is total and the
  result is no fault), its loop completes at most \<open>cap\<close> probe steps, the table it leaves
  is the table it was given, and when every slot is active and no slot matches the key the
  result is \<open>ok = false\<close>.
\<close>

theorem map_get_terminates:
  assumes "map_wf h cmp self"
  shows "(\<exists>r. map_get self k = Inr (r, self)) \<and>
    (\<exists>idx steps. map_get_loop self k (h k mod cap (entries self)) 0 = Inr (idx, steps) \<and>
       steps \<le> cap (entries self)) \<and>
    ((\<forall>j < cap (entries self). active (buf (entries self) ! j) \<and>
        \<not> cmp (key (buf (entries self) ! j)) k) \<longrightarrow>
      map_get self k = Inr (None, self))"
proof -
  have "h k mod cap (entries self) < cap (entries self)"
    using assms by (simp add: map_wf_def)
  from map_get_loop_total [OF assms this, of 0 k]
  have "\<exists>idx steps. map_get_loop self k (h k mod cap (entries self)) 0 = Inr (idx, steps) \<and>
       steps \<le> cap (entries self)"
    by auto
  moreover have "map_get self k = Inr (None, self)"
    if "\<forall>j < cap (entries self). active (buf (entries self) ! j) \<and>
        \<not> cmp (key (buf (entries self) ! j)) k"
    using that by (intro map_get_full_miss [OF assms]) (simp add: slot_stops_def)
  ultimately show ?thesis
    using map_get_total [OF assms, of k] by blast
qed

theorem map_get_terminates_witness:
  "map_wf (\<lambda>k. k) (=) example_full \<and>
   map_get example_full 4 = Inr (None, example_full) \<and>
   map_get_loop example_full 4 0 0 = Inr (0, 2) \<and>
   map_get example_full 3 = Inr (Some \<lparr>key = 3, val = 30, active = True\<rparr>, example_full)"
proof -
  have all: "\<forall>j < cap (entries example_full). active (buf (entries example_full) ! j) \<and>
        \<not> (key (buf (entries example_full) ! j)) = 4"
    by (simp add: example_full_def less_Suc_eq numeral_2_eq_2)
  have "map_get example_full 4 = Inr (None, example_full)"
    using map_get_terminates [OF example_full_wf, of 4] all by blast
  moreover have "map_get_loop example_full 4 0 0 = Inr (0, 2)"
    by (simp add: example_full_def loop_steps)
  moreover have "map_get example_full 3 = Inr (Some \<lparr>key = 3, val = 30, active = True\<rparr>, example_full)"
    by (simp add: map_get_def example_full_def loop_steps)
  ultimately show ?thesis using example_full_wf by simp
qed

section \<open>Tables built by insertions\<close>

subsection \<open>The fresh table\<close>

lemma zero_entry_inactive [simp]: "\<not> active (0 :: ('k::zero, 'v::zero) map_entry)"
  by (simp add: zero_map_entry_ext_def)

lemma map_init_fields [simp]:
  "cap (entries (map_init h cmp)) = 97"
  "active_count (map_init h cmp) = 0"
  "hash (map_init h cmp) = Some h"
  "key_compare (map_init h cmp) = Some cmp"
  "buf (entries (map_init h cmp)) = replicate 97 0"
  by (simp_all add: map_init_def dyn_init_with_cap_def)

lemma map_init_wf: "map_wf h cmp (map_init h cmp)"
  by (simp add: map_wf_def)

lemma map_init_count_ok: "count_ok (map_init h cmp)"
  by (simp add: count_ok_def)

lemma map_init_chains_ok: "chains_ok h (map_init h cmp)"
  by (simp add: chains_ok_def)

lemma map_init_keys_unique: "keys_unique cmp (map_init h cmp)"
  by (simp add: keys_unique_def)

lemma map_init_holds: "table_holds (map_init h cmp) []"
  by (simp add: table_holds_def)

subsection \<open>Inserting distinct keys\<close>

lemma table_holds_store:
  assumes wf: "map_wf h cmp self" and holds: "table_holds self done"
    and s: "s < cap (entries self)" "\<not> active (buf (entries self) ! s)"
  shows "table_holds
    ((set_slot self s \<lparr>key = k, val = v, active = True\<rparr>)\<lparr>active_count := c\<rparr>)
    (done @ [(k, v)])"
proof -
  let ?B = "buf (entries self)"
  let ?B' = "?B[s := \<lparr>key = k, val = v, active = True\<rparr>]"
  have len: "length ?B = cap (entries self)" using wf by (simp add: map_wf_def)
  have 1: "(key (?B' ! j), val (?B' ! j)) \<in> set (done @ [(k, v)])"
    if "j < cap (entries self)" "active (?B' ! j)" for j
  proof (cases "j = s")
    case True
    then show ?thesis using s len by simp
  next
    case False
    with that holds show ?thesis by (simp add: table_holds_def)
  qed
  have 2: "\<exists>j < cap (entries self). ?B' ! j = \<lparr>key = k', val = v', active = True\<rparr>"
    if "(k', v') \<in> set (done @ [(k, v)])" for k' v'
  proof (cases "(k', v') \<in> set done")
    case True
    with holds obtain j where j: "j < cap (entries self)"
      "?B ! j = \<lparr>key = k', val = v', active = True\<rparr>"
      by (auto simp: table_holds_def)
    with s(2) have "j \<noteq> s" by auto
    with j show ?thesis by (intro exI [of _ j]) simp
  next
    case False
    with that have "k' = k" "v' = v" by simp_all
    with s len show ?thesis by (intro exI [of _ s]) simp
  qed
  show ?thesis
    unfolding table_holds_def using 1 2 by (simp add: split_def)
qed

lemma map_insert_fresh:
  assumes wf: "map_wf h cmp self" and cnt: "count_ok self"
    and holds: "table_holds self done"
    and room: "active_count self < cap (entries self)"
    and fresh: "\<forall>(k', v') \<in> set done. \<not> cmp k' k"
  shows "\<exists>s < cap (entries self). \<not> active (buf (entries self) ! s) \<and>
    map_insert self k v = Some (Inr (True,
      (set_slot self s \<lparr>key = k, val = v, active = True\<rparr>)
        \<lparr>active_count := active_count self + 1\<rparr>))"
proof -
  let ?n = "cap (entries self)"
  from inactive_slot [OF wf cnt room] obtain j where
    j: "j < ?n" "slot_stops cmp self k j"
    by (auto simp: slot_stops_def)
  from map_insert_spec [OF wf room j, of v] obtain d where d: "d < ?n"
    "slot_stops cmp self k (probe_pos ?n (h k) d)"
    "map_insert self k v =
      Some (Inr (if active (buf (entries self) ! probe_pos ?n (h k) d)
        then (False, self)
        else (True, (set_slot self (probe_pos ?n (h k) d)
                       \<lparr>key = k, val = v, active = True\<rparr>)
                    \<lparr>active_count := active_count self + 1\<rparr>)))"
    by blast
  have pos: "probe_pos ?n (h k) d < ?n" using wf by (simp add: map_wf_def probe_pos_less)
  have "\<not> active (buf (entries self) ! probe_pos ?n (h k) d)"
  proof
    assume a: "active (buf (entries self) ! probe_pos ?n (h k) d)"
    with d(2) have "cmp (key (buf (entries self) ! probe_pos ?n (h k) d)) k"
      by (simp add: slot_stops_def)
    moreover from holds pos a have
      "(key (buf (entries self) ! probe_pos ?n (h k) d),
        val (buf (entries self) ! probe_pos ?n (h k) d)) \<in> set done"
      by (simp add: table_holds_def)
    ultimately show False using fresh by auto
  qed
  with d(3) pos show ?thesis by auto
qed

lemma map_run_inserts_Cons:
  "map_run self (inserts ((k, v) # kvs)) =
    Option.bind (map_insert self k v)
      (\<lambda>r. case r of
         Inl e \<Rightarrow> Some (Inl e)
       | Inr (ok, self') \<Rightarrow>
           Option.bind (map_run self' (inserts kvs))
             (\<lambda>r'. case r' of
                Inl e \<Rightarrow> Some (Inl e)
              | Inr (oks, self'') \<Rightarrow> Some (Inr (ok # oks, self''))))"
  unfolding inserts_def by (simp add: map_call_def)

lemma map_run_inserts:
  assumes "map_wf h cmp self" and "count_ok self" and "chains_ok h self"
    and "table_holds self done"
    and "active_count self + length kvs \<le> cap (entries self)"
    and "keys_distinct cmp (map fst kvs)"
    and "\<forall>(k', v') \<in> set done. \<forall>k \<in> set (map fst kvs). \<not> cmp k' k \<and> \<not> cmp k k'"
    and "\<forall>(k1, v1) \<in> set done. \<forall>(k2, v2) \<in> set done. cmp k1 k2 \<longrightarrow> (k1, v1) = (k2, v2)"
  shows "\<exists>self'. map_run self (inserts kvs) = Some (Inr (replicate (length kvs) True, self')) \<and>
    map_wf h cmp self' \<and> count_ok self' \<and> chains_ok h self' \<and>
    table_holds self' (done @ kvs) \<and>
    active_count self' = active_count self + length kvs \<and>
    cap (entries self') = cap (entries self) \<and>
    (\<forall>(k1, v1) \<in> set (done @ kvs). \<forall>(k2, v2) \<in> set (done @ kvs).
       cmp k1 k2 \<longrightarrow> (k1, v1) = (k2, v2))"
  using assms
proof (induction kvs arbitrary: self "done")
  case Nil
  then show ?case by (simp add: inserts_def)
next
  case (Cons kv kvs)
  obtain k v where kv: "kv = (k, v)" by (cases kv)
  note wf = Cons.prems(1) and cnt = Cons.prems(2) and ch = Cons.prems(3)
    and holds = Cons.prems(4)
  have room: "active_count self < cap (entries self)"
    using Cons.prems(5) by simp
  have fresh: "\<forall>(k', v') \<in> set done. \<not> cmp k' k"
    using Cons.prems(7) kv by auto
  from map_insert_fresh [OF wf cnt holds room fresh, of v] obtain s where
    s: "s < cap (entries self)" "\<not> active (buf (entries self) ! s)"
    and ins: "map_insert self k v = Some (Inr (True,
      (set_slot self s \<lparr>key = k, val = v, active = True\<rparr>)
        \<lparr>active_count := active_count self + 1\<rparr>))"
    by blast
  define self1 where "self1 = (set_slot self s \<lparr>key = k, val = v, active = True\<rparr>)
        \<lparr>active_count := active_count self + 1\<rparr>"
  have ins1: "map_insert self k v = Some (Inr (True, self1))"
    using ins by (simp add: self1_def)
  from map_insert_count [OF wf cnt ins1] have
    wf1: "map_wf h cmp self1" and cnt1: "count_ok self1"
    and cap1: "cap (entries self1) = cap (entries self)"
    by simp_all
  have ch1: "chains_ok h self1"
    by (rule chains_ok_insert [OF wf cnt ch ins1])
  have holds1: "table_holds self1 (done @ [(k, v)])"
    unfolding self1_def by (rule table_holds_store [OF wf holds s])
  have ac1: "active_count self1 = active_count self + 1"
    by (simp add: self1_def)
  have room1: "active_count self1 + length kvs \<le> cap (entries self1)"
    using Cons.prems(5) ac1 cap1 by simp
  have dist1: "keys_distinct cmp (map fst kvs)"
    using Cons.prems(6) by simp
  have head: "\<forall>k' \<in> set (map fst kvs). \<not> cmp k k' \<and> \<not> cmp k' k"
    using Cons.prems(6) kv by simp
  have fresh1: "\<forall>(k', v') \<in> set (done @ [(k, v)]). \<forall>k'' \<in> set (map fst kvs).
      \<not> cmp k' k'' \<and> \<not> cmp k'' k'"
    using Cons.prems(7) head by auto
  have uniq1: "\<forall>(k1, v1) \<in> set (done @ [(k, v)]). \<forall>(k2, v2) \<in> set (done @ [(k, v)]).
      cmp k1 k2 \<longrightarrow> (k1, v1) = (k2, v2)"
    using Cons.prems(8) Cons.prems(7) kv by auto
  from Cons.IH [OF wf1 cnt1 ch1 holds1 room1 dist1 fresh1 uniq1] obtain self' where
    run: "map_run self1 (inserts kvs) = Some (Inr (replicate (length kvs) True, self'))"
    and rest: "map_wf h cmp self'" "count_ok self'" "chains_ok h self'"
      "table_holds self' ((done @ [(k, v)]) @ kvs)"
      "active_count self' = active_count self1 + length kvs"
      "cap (entries self') = cap (entries self1)"
      "\<forall>(k1, v1) \<in> set ((done @ [(k, v)]) @ kvs). \<forall>(k2, v2) \<in> set ((done @ [(k, v)]) @ kvs).
         cmp k1 k2 \<longrightarrow> (k1, v1) = (k2, v2)"
    by blast
  have "map_run self (inserts (kv # kvs)) =
      Some (Inr (replicate (length (kv # kvs)) True, self'))"
    unfolding kv map_run_inserts_Cons by (simp add: ins1 run)
  with rest ac1 cap1 kv show ?case by simp
qed

lemma map_get_finds:
  assumes wf: "map_wf h cmp self" and ch: "chains_ok h self"
    and holds: "table_holds self kvs"
    and uniq: "\<forall>(k1, v1) \<in> set kvs. \<forall>(k2, v2) \<in> set kvs. cmp k1 k2 \<longrightarrow> (k1, v1) = (k2, v2)"
    and mem: "(k, v) \<in> set kvs" and refl: "cmp k k"
  shows "map_get self k = Inr (Some \<lparr>key = k, val = v, active = True\<rparr>, self)"
proof -
  let ?n = "cap (entries self)"
  let ?B = "buf (entries self)"
  from holds mem obtain j where j: "j < ?n" "?B ! j = \<lparr>key = k, val = v, active = True\<rparr>"
    by (auto simp: table_holds_def)
  then have aj: "active (?B ! j)" and kj: "key (?B ! j) = k" by simp_all
  from ch j(1) aj kj obtain D where D: "D < ?n" "probe_pos ?n (h k) D = j"
    "\<forall>d' < D. active (?B ! probe_pos ?n (h k) d')"
    unfolding chains_ok_def by metis
  have act: "\<forall>d \<le> D. active (?B ! probe_pos ?n (h k) d)"
    using D(2,3) aj by (auto simp: le_less)
  have hit: "cmp (key (?B ! probe_pos ?n (h k) D)) k"
    using D(2) kj refl by simp
  from map_get_hit [OF wf D(1) act hit] obtain d where d:
    "map_get self k = Inr (Some (?B ! probe_pos ?n (h k) d), self)"
    "active (?B ! probe_pos ?n (h k) d)"
    "cmp (key (?B ! probe_pos ?n (h k) d)) k"
    by blast
  let ?e = "?B ! probe_pos ?n (h k) d"
  have "probe_pos ?n (h k) d < ?n" using wf by (simp add: map_wf_def probe_pos_less)
  with holds d(2) have e: "(key ?e, val ?e) \<in> set kvs"
    by (simp add: table_holds_def)
  have u: "(k1, v1) = (k2, v2)"
    if "(k1, v1) \<in> set kvs" "(k2, v2) \<in> set kvs" "cmp k1 k2" for k1 v1 k2 v2
    using uniq that by fastforce
  from u [OF e mem d(3)] have "(key ?e, val ?e) = (k, v)" .
  with d(2) have "?e = \<lparr>key = k, val = v, active = True\<rparr>" by simp
  with d(1) show ?thesis by simp
qed

lemma map_run_inserts_init:
  assumes "keys_distinct cmp (map fst kvs)" and "length kvs \<le> 97"
  shows "\<exists>self'. map_run (map_init h cmp) (inserts kvs) =
      Some (Inr (replicate (length kvs) True, self')) \<and>
    map_wf h cmp self' \<and> count_ok self' \<and> chains_ok h self' \<and> table_holds self' kvs \<and>
    active_count self' = length kvs \<and> cap (entries self') = 97 \<and>
    (\<forall>(k1, v1) \<in> set kvs. \<forall>(k2, v2) \<in> set kvs. cmp k1 k2 \<longrightarrow> (k1, v1) = (k2, v2))"
  using map_run_inserts [of h cmp "map_init h cmp" "[]" kvs, OF map_init_wf map_init_count_ok
      map_init_chains_ok map_init_holds] assms
  by simp

text \<open>
  Claim C2. From a freshly initialised table, every sequence of \<open>map_insert\<close> calls with
  keys that are pairwise distinct under the supplied equality (which holds of each key
  and itself), of at most 97 calls (the capacity), returns \<open>true\<close> at each call; afterwards
  \<open>active_count\<close> is the number of calls, and \<open>map_get\<close> on each inserted key returns
  \<open>ok = true\<close> with the entry holding that key and the value inserted for it.
\<close>

theorem inserts_then_get:
  assumes "keys_distinct cmp (map fst kvs)" and "\<forall>k \<in> set (map fst kvs). cmp k k"
    and "length kvs \<le> 97"
  shows "\<exists>self'. map_run (map_init h cmp) (inserts kvs) =
      Some (Inr (replicate (length kvs) True, self')) \<and>
    active_count self' = length kvs \<and>
    (\<forall>(k, v) \<in> set kvs. map_get self' k = Inr (Some \<lparr>key = k, val = v, active = True\<rparr>, self'))"
proof -
  from map_run_inserts_init [OF assms(1,3), of h] obtain self' where
    run: "map_run (map_init h cmp) (inserts kvs) = Some (Inr (replicate (length kvs) True, self'))"
    and inv: "map_wf h cmp self'" "chains_ok h self'" "table_holds self' kvs"
      "active_count self' = length kvs"
      "\<forall>(k1, v1) \<in> set kvs. \<forall>(k2, v2) \<in> set kvs. cmp k1 k2 \<longrightarrow> (k1, v1) = (k2, v2)"
    by blast
  have "map_get self' k = Inr (Some \<lparr>key = k, val = v, active = True\<rparr>, self')"
    if "(k, v) \<in> set kvs" for k v
  proof -
    from that have "k \<in> set (map fst kvs)" by force
    with assms(2) have "cmp k k" by blast
    from map_get_finds [OF inv(1,2,3,5) that this] show ?thesis .
  qed
  with run inv(4) show ?thesis by blast
qed

theorem inserts_then_get_witness:
  "keys_distinct (=) (map fst [(1 :: nat, 10 :: nat), (98, 20)]) \<and>
   length [(1 :: nat, 10 :: nat), (98, 20)] \<le> 97 \<and>
   (\<exists>self'. map_run (map_init (\<lambda>k. k) (=)) (inserts [(1 :: nat, 10 :: nat), (98, 20)]) =
      Some (Inr ([True, True], self')) \<and>
    active_count self' = 2 \<and>
    map_get self' 1 = Inr (Some \<lparr>key = 1, val = 10, active = True\<rparr>, self') \<and>
    map_get self' 98 = Inr (Some \<lparr>key = 98, val = 20, active = True\<rparr>, self'))"
  using inserts_then_get [of "(=)" "[(1 :: nat, 10 :: nat), (98, 20)]" "\<lambda>k. k"]
  by (simp add: numeral_2_eq_2)

section \<open>The full table\<close>

subsection \<open>The scenario\<close>

lemma keys_distinct_append:
  "keys_distinct cmp (xs @ ys) \<longleftrightarrow>
    keys_distinct cmp xs \<and> keys_distinct cmp ys \<and>
    (\<forall>x \<in> set xs. \<forall>y \<in> set ys. \<not> cmp x y \<and> \<not> cmp y x)"
  by (induction xs) auto

lemma keys_distinct_eq: "keys_distinct (=) ks \<longleftrightarrow> distinct ks"
  by (induction ks) auto

lemma scenario_keys: "map fst (scenario_kvs n) = [0..<n]"
  by (simp add: scenario_kvs_def comp_def)

lemma scenario_distinct: "keys_distinct (=) (map fst (scenario_kvs n))"
  by (simp add: scenario_keys keys_distinct_eq)

lemma scenario_length: "length (scenario_kvs n) = n"
  by (simp add: scenario_kvs_def)

lemma map_run_single:
  "map_run self (inserts [(k, v)]) = Some (Inr ([b], self')) \<longleftrightarrow>
   map_insert self k v = Some (Inr (b, self'))"
proof (cases "map_insert self k v")
  case None
  then show ?thesis by (simp add: inserts_def map_call_def)
next
  case (Some r)
  show ?thesis
  proof (cases r)
    case (Inl e)
    with Some show ?thesis by (simp add: inserts_def map_call_def)
  next
    case (Inr p)
    obtain a s where "p = (a, s)" by (cases p)
    with Some Inr show ?thesis by (auto simp: inserts_def map_call_def)
  qed
qed

lemma all_active_when_full:
  assumes "map_wf h cmp self" and "count_ok self"
    and "active_count self = cap (entries self)" and "j < cap (entries self)"
  shows "active (buf (entries self) ! j)"
proof (rule ccontr)
  assume "\<not> active (buf (entries self) ! j)"
  moreover have "buf (entries self) ! j \<in> set (buf (entries self))"
    using assms(1,4) by (simp add: map_wf_def)
  ultimately have "length (filter active (buf (entries self))) < length (buf (entries self))"
    by (rule length_filter_less [rotated])
  with assms(1,2,3) show False by (simp add: map_wf_def count_ok_def)
qed

lemma scenario_table_inv:
  assumes "n \<le> 97"
  shows "\<exists>t. scenario_table n = Some t \<and> map_wf (\<lambda>k. k) (=) t \<and> count_ok t \<and>
    table_holds t (scenario_kvs n) \<and> active_count t = n \<and> cap (entries t) = 97"
proof -
  from map_run_inserts_init [of "(=)" "scenario_kvs n" "\<lambda>k. k", OF scenario_distinct] assms
  obtain t where
    "map_run (map_init (\<lambda>k. k) (=)) (inserts (scenario_kvs n)) =
      Some (Inr (replicate (length (scenario_kvs n)) True, t))"
    "map_wf (\<lambda>k. k) (=) t" "count_ok t" "table_holds t (scenario_kvs n)"
    "active_count t = length (scenario_kvs n)" "cap (entries t) = 97"
    by (auto simp: scenario_length)
  then show ?thesis
    by (simp add: scenario_table_def map_run_table_def scenario_length)
qed

lemma scenario_full_no_stop:
  assumes "map_wf (\<lambda>k. k) (=) t" and "count_ok t" and "table_holds t (scenario_kvs 97)"
    and "active_count t = 97" and "cap (entries t) = 97"
  shows "\<forall>j < cap (entries t). \<not> slot_stops (=) t 97 j"
proof (intro allI impI)
  fix j assume j: "j < cap (entries t)"
  have a: "active (buf (entries t) ! j)"
    using all_active_when_full [OF assms(1,2) _ j] assms(4,5) by simp
  with assms(3) j have "(key (buf (entries t) ! j), val (buf (entries t) ! j)) \<in> set (scenario_kvs 97)"
    by (simp add: table_holds_def)
  then have "key (buf (entries t) ! j) \<in> set (map fst (scenario_kvs 97))"
    by force
  then have "key (buf (entries t) ! j) < 97"
    by (simp add: scenario_keys)
  with a show "\<not> slot_stops (=) t 97 j"
    by (simp add: slot_stops_def)
qed

text \<open>
  Claim C1 says that a growth triggered inside \<open>map_insert\<close> leaves a table of
  \<open>2 * cap + 1\<close> slots in which every entry is found again. In the code \<open>map_resize\<close> builds
  the new map without \<open>hash\<close> and \<open>key_compare\<close> and re-inserts into it with \<open>map_insert\<close>,
  which calls \<open>self->hash\<close>: once 97 distinct keys have filled the fresh table
  (\<open>active_count = cap = 97\<close>), the next \<open>map_insert\<close> calls a null function pointer and
  leaves no table at all.
\<close>

theorem growth_calls_null_hash:
  "scenario_table 97 \<noteq> None \<and>
   map_option active_count (scenario_table 97) = Some 97 \<and>
   map_option (\<lambda>t. cap (entries t)) (scenario_table 97) = Some 97 \<and>
   Option.bind (scenario_table 97) (\<lambda>t. map_insert t 97 970) = Some (Inl NullCall)"
proof -
  from scenario_table_inv [of 97] obtain t where t: "scenario_table 97 = Some t"
    "map_wf (\<lambda>k. k) (=) t" "active_count t = 97" "cap (entries t) = 97"
    by auto
  have "map_insert t 97 970 = Some (Inl NullCall)"
    using t(2,3,4) by (intro map_insert_growth) (simp_all add: map_wf_def)
  with t show ?thesis by simp
qed

text \<open>
  Claim C4 says that every operation terminates in every reachable state, in particular
  \<open>map_update\<close> and \<open>map_remove\<close> on an absent key when every slot is active. That state is
  reached by 97 insertions into a fresh table (growth is only attempted by the insertion
  after), and there the \<open>while\<close> loops of \<open>map_update\<close> and \<open>map_remove\<close>, which have no
  bound (the \<open>for\<close> loop of \<open>map_get\<close> has one), never leave: the calls do not return.
\<close>

theorem update_remove_spin_on_full_table:
  "scenario_table 97 \<noteq> None \<and>
   map_option active_count (scenario_table 97) = Some 97 \<and>
   Option.bind (scenario_table 97) (\<lambda>t. map_update t 97 0) = None \<and>
   Option.bind (scenario_table 97) (\<lambda>t. map_remove t 97) = None"
proof -
  from scenario_table_inv [of 97] obtain t where t: "scenario_table 97 = Some t"
    "map_wf (\<lambda>k. k) (=) t" "count_ok t" "table_holds t (scenario_kvs 97)"
    "active_count t = 97" "cap (entries t) = 97"
    by auto
  note ns = scenario_full_no_stop [OF t(2-6)]
  have "map_update t 97 0 = None"
    by (rule map_update_diverges [OF t(2) ns])
  moreover have "map_remove t 97 = None"
    by (rule map_remove_diverges [OF t(2) ns])
  ultimately show ?thesis using t by simp
qed

text \<open>
  Claim C5 says that the 97th insertion into a fresh table makes the capacity 195.
  \<open>map_insert\<close> grows the table when \<open>active_count >= cap\<close> holds on entry, which is first the
  case at the 98th insertion: after 97 insertions the capacity is still 97.
\<close>

theorem no_growth_at_97th_insert:
  "map_option (\<lambda>t. cap (entries t)) (scenario_table 97) = Some 97 \<and>
   map_option (\<lambda>t. cap (entries t)) (scenario_table 97) \<noteq> Some 195"
proof -
  from scenario_table_inv [of 97] obtain t where "scenario_table 97 = Some t"
    "cap (entries t) = 97"
    by auto
  then show ?thesis by simp
qed

text \<open>
  Claim C5, amended. Starting from a freshly initialised table of capacity 97, inserting
  96 distinct keys causes no resize (the capacity stays 97) and all 96 are retrievable
  with their values; inserting a 97th distinct key returns \<open>true\<close> and causes no resize
  either: the capacity stays 97 and all 97 keys retrieve their original values.
\<close>

theorem capacity_97_scenario:
  assumes "keys_distinct cmp (map fst (kvs @ [(k, v)]))"
    and "\<forall>k' \<in> set (map fst (kvs @ [(k, v)])). cmp k' k'"
    and "length kvs = 96"
  shows "\<exists>t96 t97.
    map_run (map_init h cmp) (inserts kvs) = Some (Inr (replicate 96 True, t96)) \<and>
    cap (entries t96) = 97 \<and>
    (\<forall>(k', v') \<in> set kvs.
       map_get t96 k' = Inr (Some \<lparr>key = k', val = v', active = True\<rparr>, t96)) \<and>
    map_insert t96 k v = Some (Inr (True, t97)) \<and>
    cap (entries t97) = 97 \<and>
    (\<forall>(k', v') \<in> set (kvs @ [(k, v)]).
       map_get t97 k' = Inr (Some \<lparr>key = k', val = v', active = True\<rparr>, t97))"
proof -
  from assms(1) have d1: "keys_distinct cmp (map fst kvs)"
    and cross: "\<forall>x \<in> set (map fst kvs). \<not> cmp x k \<and> \<not> cmp k x"
    by (simp_all add: keys_distinct_append)
  from map_run_inserts_init [OF d1, of h] assms(3) obtain t96 where
    run: "map_run (map_init h cmp) (inserts kvs) = Some (Inr (replicate 96 True, t96))"
    and inv: "map_wf h cmp t96" "count_ok t96" "chains_ok h t96" "table_holds t96 kvs"
      "active_count t96 = 96" "cap (entries t96) = 97"
      "\<forall>(k1, v1) \<in> set kvs. \<forall>(k2, v2) \<in> set kvs. cmp k1 k2 \<longrightarrow> (k1, v1) = (k2, v2)"
    by auto
  have refl: "cmp k' k'" if "(k', v') \<in> set (kvs @ [(k, v)])" for k' v'
  proof -
    from that have "k' \<in> set (map fst (kvs @ [(k, v)]))" by force
    with assms(2) show ?thesis by blast
  qed
  have get96: "map_get t96 k' = Inr (Some \<lparr>key = k', val = v', active = True\<rparr>, t96)"
    if "(k', v') \<in> set kvs" for k' v'
    using map_get_finds [OF inv(1,3,4,7) that] refl [of k' v'] that by simp
  have room: "active_count t96 + length [(k, v)] \<le> cap (entries t96)"
    using inv(5,6) by simp
  have fresh: "\<forall>(k', v') \<in> set kvs. \<forall>k'' \<in> set (map fst [(k, v)]). \<not> cmp k' k'' \<and> \<not> cmp k'' k'"
    using cross by force
  from map_run_inserts [OF inv(1,2,3,4) room _ fresh inv(7)] obtain t97 where
    run97: "map_run t96 (inserts [(k, v)]) = Some (Inr ([True], t97))"
    and inv97: "map_wf h cmp t97" "chains_ok h t97" "table_holds t97 (kvs @ [(k, v)])"
      "cap (entries t97) = cap (entries t96)"
      "\<forall>(k1, v1) \<in> set (kvs @ [(k, v)]). \<forall>(k2, v2) \<in> set (kvs @ [(k, v)]).
         cmp k1 k2 \<longrightarrow> (k1, v1) = (k2, v2)"
    by auto
  have ins: "map_insert t96 k v = Some (Inr (True, t97))"
    using run97 by (simp only: map_run_single)
  have get97: "map_get t97 k' = Inr (Some \<lparr>key = k', val = v', active = True\<rparr>, t97)"
    if "(k', v') \<in> set (kvs @ [(k, v)])" for k' v'
    using map_get_finds [OF inv97(1,2,3,5) that] refl [OF that] by simp
  from run inv(6) get96 ins inv97(4) get97 show ?thesis
    by (intro exI [of _ t96] exI [of _ t97]) auto
qed

theorem capacity_97_scenario_witness:
  "keys_distinct (=) (map fst (scenario_kvs 96 @ [(96, 960)])) \<and>
   length (scenario_kvs 96) = 96 \<and>
   (\<exists>t96 t97.
      map_run (map_init (\<lambda>k. k) (=)) (inserts (scenario_kvs 96)) =
        Some (Inr (replicate 96 True, t96)) \<and>
      cap (entries t96) = 97 \<and>
      map_insert t96 96 960 = Some (Inr (True, t97)) \<and>
      cap (entries t97) = 97 \<and>
      map_get t97 96 = Inr (Some \<lparr>key = 96, val = 960, active = True\<rparr>, t97))"
proof -
  have d: "keys_distinct (=) (map fst (scenario_kvs 96 @ [(96, 960)]))"
    by (simp add: scenario_keys keys_distinct_eq)
  have l: "length (scenario_kvs 96) = 96"
    by (rule scenario_length)
  from capacity_97_scenario [of "(=)" "scenario_kvs 96" 96 960 "\<lambda>k. k", OF d _ l]
  obtain t96 t97 where
    "map_run (map_init (\<lambda>k. k) (=)) (inserts (scenario_kvs 96)) =
        Some (Inr (replicate 96 True, t96))"
    "cap (entries t96) = 97"
    "map_insert t96 96 960 = Some (Inr (True, t97))"
    "cap (entries t97) = 97"
    "\<forall>(k', v') \<in> set (scenario_kvs 96 @ [(96, 960)]).
       map_get t97 k' = Inr (Some \<lparr>key = k', val = v', active = True\<rparr>, t97)"
    by auto
  moreover from this(5) have
    "map_get t97 96 = Inr (Some \<lparr>key = 96, val = 960, active = True\<rparr>, t97)"
    by simp
  ultimately show ?thesis using d l by blast
qed

section \<open>Invariants across the operations\<close>

lemma map_run_table_Cons:
  "map_call self c = Some (Inr (ok, self')) \<Longrightarrow>
   map_run_table self (c # cs) = map_run_table self' cs"
  by (cases "map_run self' cs")
     (auto simp: map_run_table_def split: sum.splits prod.splits option.splits)

lemma map_run_table_Nil: "map_run_table self [] = Some self"
  by (simp add: map_run_table_def)

lemma equal_consistent_eq: "equal_consistent (=) h"
  by (simp add: equal_consistent_def)

text \<open>
  Claim C8 says that every operation keeps \<open>active_count\<close> equal to the number of active
  entries and each key in at most one active slot; the comment on \<open>map_insert\<close> says the
  same of keys (\<open>returns false if key isn't unique\<close>). \<open>map_remove\<close> only clears \<open>active\<close>,
  which breaks the probe chain of every key stored behind the removed slot. With keys 1
  and 98 hashing to the same slot of a fresh table: after insert 1, insert 98, remove 1
  the count and the uniqueness of keys hold, and a further insert of the key 98, which
  is present, returns \<open>true\<close> and stores it a second time.
\<close>

theorem insert_after_remove_duplicates_key:
  "equal_consistent (=) (\<lambda>k :: nat. k) \<and>
   map_option count_ok
     (map_run_table (map_init (\<lambda>k. k) (=))
        [Insert (1 :: nat) (10 :: nat), Insert 98 20, Remove 1]) = Some True \<and>
   map_option (keys_unique (=))
     (map_run_table (map_init (\<lambda>k. k) (=))
        [Insert (1 :: nat) (10 :: nat), Insert 98 20, Remove 1]) = Some True \<and>
   map_option (keys_unique (=))
     (map_run_table (map_init (\<lambda>k. k) (=))
        [Insert (1 :: nat) (10 :: nat), Insert 98 20, Remove 1, Insert 98 30]) = Some False \<and>
   map_option
     (\<lambda>t. (active (buf (entries t) ! 1), key (buf (entries t) ! 1),
           active (buf (entries t) ! 2), key (buf (entries t) ! 2)))
     (map_run_table (map_init (\<lambda>k. k) (=))
        [Insert (1 :: nat) (10 :: nat), Insert 98 20, Remove 1, Insert 98 30]) =
     Some (True, 98, True, 98)"
proof -
  define t0 :: "(nat, nat) map_kv" where "t0 = map_init (\<lambda>k. k) (=)"
  define t1 where "t1 = (set_slot t0 1 \<lparr>key = 1, val = 10, active = True\<rparr>)
      \<lparr>active_count := active_count t0 + 1\<rparr>"
  define t2 where "t2 = (set_slot t1 2 \<lparr>key = 98, val = 20, active = True\<rparr>)
      \<lparr>active_count := active_count t1 + 1\<rparr>"
  define t3 where "t3 = (set_slot t2 1 ((buf (entries t2) ! 1)\<lparr>active := False\<rparr>))
      \<lparr>active_count := size_sub (active_count t2) 1\<rparr>"
  define t4 where "t4 = (set_slot t3 1 \<lparr>key = 98, val = 30, active = True\<rparr>)
      \<lparr>active_count := active_count t3 + 1\<rparr>"
  have wf0: "map_wf (\<lambda>k. k) (=) t0" unfolding t0_def by (rule map_init_wf)
  have wf1: "map_wf (\<lambda>k. k) (=) t1" using wf0 by (simp add: t1_def)
  have wf2: "map_wf (\<lambda>k. k) (=) t2" using wf1 by (simp add: t2_def)
  have wf3: "map_wf (\<lambda>k. k) (=) t3" using wf2 by (simp add: t3_def)
  have b0: "buf (entries t0) = replicate 97 0" "cap (entries t0) = 97" "active_count t0 = 0"
    by (simp_all add: t0_def)
  have b1: "buf (entries t1) = (replicate 97 0)[1 := \<lparr>key = 1, val = 10, active = True\<rparr>]"
    "cap (entries t1) = 97" "active_count t1 = 1"
    by (simp_all add: t1_def b0)
  have b2: "buf (entries t2) = (replicate 97 0)[1 := \<lparr>key = 1, val = 10, active = True\<rparr>,
      2 := \<lparr>key = 98, val = 20, active = True\<rparr>]"
    "cap (entries t2) = 97" "active_count t2 = 2"
    by (simp_all add: t2_def b1)
  have b3: "buf (entries t3) = (replicate 97 0)[1 := \<lparr>key = 1, val = 10, active = False\<rparr>,
      2 := \<lparr>key = 98, val = 20, active = True\<rparr>]"
    "cap (entries t3) = 97" "active_count t3 = 1"
    by (simp_all add: t3_def b2 size_sub_def list_update_swap)
  have b4: "buf (entries t4) = (replicate 97 0)[1 := \<lparr>key = 98, val = 30, active = True\<rparr>,
      2 := \<lparr>key = 98, val = 20, active = True\<rparr>]"
    "cap (entries t4) = 97" "active_count t4 = 2"
    by (simp_all add: t4_def b3 list_update_swap)
  have kc: "key_compare t0 = Some (=)" "key_compare t1 = Some (=)" "key_compare t2 = Some (=)"
    "key_compare t3 = Some (=)"
    using wf0 wf1 wf2 wf3 by (simp_all add: map_wf_def)
  have hs: "hash t2 = Some (\<lambda>k. k)"
    using wf2 by (simp add: map_wf_def)
  have s1: "map_call t0 (Insert 1 10) = Some (Inr (True, t1))"
    by (simp add: map_call_def map_insert_small [OF wf0] b0 map_probe_inactive t1_def)
  have p2: "map_probe t1 98 (98 mod 97) = Some (Inr (False, 2))"
    by (simp add: map_probe_next map_probe_inactive b1 kc)
  have s2: "map_call t1 (Insert 98 20) = Some (Inr (True, t2))"
    using p2 by (simp add: map_call_def map_insert_small [OF wf1] b1 t2_def)
  have p3: "map_probe t2 1 (1 mod 97) = Some (Inr (True, 1))"
    by (simp add: map_probe_match b2 kc)
  have s3: "map_call t2 (Remove 1) = Some (Inr (True, t3))"
    using p3 by (simp add: map_call_def map_remove_def hs b2(2) t3_def)
  have p4: "map_probe t3 98 (98 mod 97) = Some (Inr (False, 1))"
    by (simp add: map_probe_inactive b3)
  have s4: "map_call t3 (Insert 98 30) = Some (Inr (True, t4))"
    using p4 by (simp add: map_call_def map_insert_small [OF wf3] b3 t4_def)
  have r3: "map_run_table t0 [Insert 1 10, Insert 98 20, Remove 1] = Some t3"
    unfolding map_run_table_Cons [OF s1] map_run_table_Cons [OF s2]
        map_run_table_Cons [OF s3] by (rule map_run_table_Nil)
  have r4: "map_run_table t0 [Insert 1 10, Insert 98 20, Remove 1, Insert 98 30] = Some t4"
    unfolding map_run_table_Cons [OF s1] map_run_table_Cons [OF s2]
        map_run_table_Cons [OF s3] map_run_table_Cons [OF s4] by (rule map_run_table_Nil)
  have "filter active (buf (entries t3)) = [\<lparr>key = 98, val = 20, active = True\<rparr>]"
    unfolding b3 by code_simp
  then have c3: "count_ok t3"
    by (simp add: count_ok_def b3)
  have u3: "keys_unique (=) t3"
    unfolding keys_unique_def b3
    by (auto simp: nth_list_update split: if_splits)
  have u4: "\<not> keys_unique (=) t4"
  proof
    assume "keys_unique (=) t4"
    from this [unfolded keys_unique_def, rule_format, of 1 2]
    have "(1 :: nat) = 2" by (simp add: b4)
    then show False by simp
  qed
  have slots: "active (buf (entries t4) ! 1)" "key (buf (entries t4) ! 1) = 98"
    "active (buf (entries t4) ! 2)" "key (buf (entries t4) ! 2) = 98"
    by (simp_all add: b4)
  show ?thesis
    using r3 r4 c3 u3 u4 slots by (simp add: t0_def equal_consistent_eq)
qed

theorem insert_after_remove_duplicates_key_witness:
  "map_option
     (\<lambda>t. (active (buf (entries t) ! 1), key (buf (entries t) ! 1),
           active (buf (entries t) ! 2), key (buf (entries t) ! 2)))
     (map_run_table (map_init (\<lambda>k. k) (=))
        [Insert (1 :: nat) (10 :: nat), Insert 98 20, Remove 1, Insert 98 30]) =
     Some (True, 98, True, 98)"
  using insert_after_remove_duplicates_key by (elim conjE)

lemma example_half_invs:
  "count_ok example_half" "keys_unique (=) example_half" "chains_ok (\<lambda>k. k) example_half"
proof -
  show "count_ok example_half"
    by (simp add: count_ok_def example_half_def)
  show "keys_unique (=) example_half"
    by (auto simp: keys_unique_def example_half_def less_Suc_eq numeral_2_eq_2)
  have "\<exists>d < 2. probe_pos 2 2 d = 0 \<and> (\<forall>d' < d. False)"
    by (intro exI [of _ 0]) (simp add: probe_pos_def)
  then show "chains_ok (\<lambda>k. k) example_half"
    by (auto simp: chains_ok_def example_half_def less_Suc_eq numeral_2_eq_2)
qed

lemma example_half_insert_3:
  "map_insert example_half 3 30 = Some (Inr (True, example_full))"
proof -
  have "active_count example_half < cap (entries example_half)"
    by (simp add: example_half_def)
  from map_insert_small [OF example_half_wf this, of 3 30] show ?thesis
    by (simp add: example_half_def example_full_def loop_steps set_slot_def)
qed

lemma example_full_update_3:
  "map_update example_full 3 31 =
    Some (Inr (True, set_slot example_full 1 \<lparr>key = 3, val = 31, active = True\<rparr>))"
  by (simp add: map_update_def example_full_def loop_steps)

lemma example_full_remove_3:
  "map_remove example_full 3 =
    Some (Inr (True, (set_slot example_full 1 \<lparr>key = 3, val = 30, active = False\<rparr>)
      \<lparr>active_count := 1\<rparr>))"
  by (simp add: map_remove_def example_full_def loop_steps size_sub_def)

text \<open>
  What the operations do preserve. On a well-formed table whose \<open>active_count\<close> is the
  number of active entries, every \<open>map_insert\<close>, \<open>map_update\<close> and \<open>map_remove\<close> that returns
  leaves a well-formed table whose \<open>active_count\<close> is again the number of active entries,
  hence at most the capacity. \<open>map_update\<close> and \<open>map_remove\<close> keep each key in at most one
  active slot; \<open>map_insert\<close> does so, for an equality that is an equivalence relation
  consistent with the hash function, as long as every probe chain of the table is
  unbroken, which \<open>map_insert\<close> and \<open>map_update\<close> preserve and \<open>map_remove\<close> need not.
\<close>

theorem map_operations_preserve_invariants:
  assumes "map_wf h cmp self" and "count_ok self"
  shows
   "(map_insert self k v = Some (Inr (b, self')) \<longrightarrow>
       map_wf h cmp self' \<and> count_ok self' \<and> active_count self' \<le> cap (entries self') \<and>
       (chains_ok h self \<longrightarrow> chains_ok h self') \<and>
       (equal_consistent cmp h \<and> keys_unique cmp self \<and> chains_ok h self \<longrightarrow>
          keys_unique cmp self')) \<and>
    (map_update self k v = Some (Inr (b, self')) \<longrightarrow>
       map_wf h cmp self' \<and> count_ok self' \<and> active_count self' \<le> cap (entries self') \<and>
       (chains_ok h self \<longrightarrow> chains_ok h self') \<and>
       (keys_unique cmp self \<longrightarrow> keys_unique cmp self')) \<and>
    (map_remove self k = Some (Inr (b, self')) \<longrightarrow>
       map_wf h cmp self' \<and> count_ok self' \<and> active_count self' \<le> cap (entries self') \<and>
       (keys_unique cmp self \<longrightarrow> keys_unique cmp self'))"
proof (intro conjI impI)
  assume r: "map_insert self k v = Some (Inr (b, self'))"
  from map_insert_count [OF assms r]
  show "map_wf h cmp self'" "count_ok self'" by simp_all
  then show "active_count self' \<le> cap (entries self')" by (rule count_ok_le_cap)
  show "chains_ok h self'" if "chains_ok h self"
    using that by (rule chains_ok_insert [OF assms _ r])
  show "keys_unique cmp self'"
    if "equal_consistent cmp h \<and> keys_unique cmp self \<and> chains_ok h self"
  proof (rule keys_unique_insert [OF assms _ _ _ _ r])
    show "chains_ok h self" "keys_unique cmp self" using that by simp_all
    show "\<And>x y. cmp x y \<Longrightarrow> cmp y x" "\<And>x y. cmp x y \<Longrightarrow> h x = h y"
      using that unfolding equal_consistent_def by blast+
  qed
next
  assume r: "map_update self k v = Some (Inr (b, self'))"
  from map_update_count [OF assms r]
  show "map_wf h cmp self'" "count_ok self'" by simp_all
  then show "active_count self' \<le> cap (entries self')" by (rule count_ok_le_cap)
  show "chains_ok h self'" if "chains_ok h self"
    using that by (rule chains_ok_update [OF assms(1) _ r])
  show "keys_unique cmp self'" if "keys_unique cmp self"
    using that by (rule keys_unique_update [OF assms(1) _ r])
next
  assume r: "map_remove self k = Some (Inr (b, self'))"
  from map_remove_count [OF assms r]
  show "map_wf h cmp self'" "count_ok self'" by simp_all
  then show "active_count self' \<le> cap (entries self')" by (rule count_ok_le_cap)
  show "keys_unique cmp self'" if "keys_unique cmp self"
    using that by (rule keys_unique_remove [OF assms(1) _ r])
qed

theorem map_operations_preserve_invariants_witness:
  "map_wf (\<lambda>k. k) (=) example_half \<and> count_ok example_half \<and>
   equal_consistent (=) (\<lambda>k :: nat. k) \<and> keys_unique (=) example_half \<and>
   chains_ok (\<lambda>k. k) example_half \<and>
   map_insert example_half 3 30 = Some (Inr (True, example_full)) \<and>
   count_ok example_full \<and> active_count example_full \<le> cap (entries example_full) \<and>
   keys_unique (=) example_full \<and> chains_ok (\<lambda>k. k) example_full \<and>
   (\<exists>t. map_update example_full 3 31 = Some (Inr (True, t)) \<and> count_ok t \<and>
      keys_unique (=) t) \<and>
   (\<exists>t. map_remove example_full 3 = Some (Inr (True, t)) \<and> count_ok t \<and>
      keys_unique (=) t)"
proof -
  note ins = map_operations_preserve_invariants
    [OF example_half_wf example_half_invs(1), of 3 30 True example_full,
     THEN conjunct1, rule_format, OF example_half_insert_3]
  from ins have full: "count_ok example_full"
    "active_count example_full \<le> cap (entries example_full)"
    "chains_ok (\<lambda>k. k) example_full" "keys_unique (=) example_full"
    using example_half_invs equal_consistent_eq [of "\<lambda>k :: nat. k"] by simp_all
  note upd = map_operations_preserve_invariants
    [OF example_full_wf full(1), of 3 31 True,
     THEN conjunct2, THEN conjunct1, rule_format, OF example_full_update_3]
  note rem = map_operations_preserve_invariants
    [OF example_full_wf full(1), of 3 31 True,
     THEN conjunct2, THEN conjunct2, rule_format, OF example_full_remove_3]
  have "\<exists>t. map_update example_full 3 31 = Some (Inr (True, t)) \<and> count_ok t \<and>
      keys_unique (=) t"
    using upd full(4) example_full_update_3 by blast
  moreover have "\<exists>t. map_remove example_full 3 = Some (Inr (True, t)) \<and> count_ok t \<and>
      keys_unique (=) t"
    using rem full(4) example_full_remove_3 by blast
  ultimately show ?thesis
    using example_half_wf example_half_invs equal_consistent_eq [of "\<lambda>k :: nat. k"]
      example_half_insert_3 full
    by simp
qed

end
